theory Spec2Isabelle
  imports Main "HOL-Library.Monad_Syntax"
begin

section \<open>Configuration and constants\<close>

text \<open>
  The simulator is configured by four globals (\<^verbatim>\<open>extern uint32_t PIPE_WIDTH\<close>,
  \<^verbatim>\<open>NUM_ROB_ENTRIES\<close>, \<^verbatim>\<open>LOAD_EXE_CYCLES\<close> and \<^verbatim>\<open>SchedulingPolicy SCHED_POLICY\<close>),
  set once before \<^verbatim>\<open>pipe_init\<close>. They are collected in a record that every operation
  takes as its first argument. The header \<^verbatim>\<open>trace.h\<close> is not part of the sources at
  hand; the two constants of it that the code relies on (\<^verbatim>\<open>NUM_OP_TYPES\<close> in
  \<^verbatim>\<open>pipe_fetch_inst\<close>, and the op type of a load, which the execution queue needs)
  are fields of the same record.
\<close>

datatype SchedulingPolicy = SCHED_IN_ORDER | SCHED_OUT_OF_ORDER | NUM_SCHED_POLICIES

record config =
  PIPE_WIDTH :: nat
  NUM_ROB_ENTRIES :: nat
  SCHED_POLICY :: SchedulingPolicy
  LOAD_EXE_CYCLES :: nat
  NUM_OP_TYPES :: nat
  OP_LD :: nat

definition MAX_ARF_REGS :: int where
  "MAX_ARF_REGS = 32"

definition MAX_ROB_ENTRIES :: nat where
  "MAX_ROB_ENTRIES = 256"

definition MAX_PIPE_WIDTH :: nat where
  "MAX_PIPE_WIDTH = 8"

definition MAX_WRITEBACKS :: nat where
  "MAX_WRITEBACKS = 256"

text \<open>
  The configuration contract of the simulator: between 1 and \<^verbatim>\<open>MAX_PIPE_WIDTH\<close> lanes,
  between 1 and \<^verbatim>\<open>MAX_ROB_ENTRIES\<close> ROB slots, a load latency of at least one cycle.
  With \<^verbatim>\<open>NUM_ROB_ENTRIES = 0\<close> the C code divides by zero and with \<^verbatim>\<open>PIPE_WIDTH = 0\<close>
  the bound \<^verbatim>\<open>PIPE_WIDTH - 1\<close> of the sort in \<^verbatim>\<open>pipe_cycle_issue\<close> wraps around.
\<close>

definition valid_config :: "config \<Rightarrow> bool" where
  "valid_config cfg \<longleftrightarrow>
     1 \<le> PIPE_WIDTH cfg \<and> PIPE_WIDTH cfg \<le> MAX_PIPE_WIDTH \<and>
     1 \<le> NUM_ROB_ENTRIES cfg \<and> NUM_ROB_ENTRIES cfg \<le> MAX_ROB_ENTRIES \<and>
     1 \<le> LOAD_EXE_CYCLES cfg"

text \<open>
  The counters of the pipeline are \<^verbatim>\<open>uint64_t\<close> and the loop bounds are
  \<^verbatim>\<open>unsigned int\<close>. They are natural numbers here, with the wrap-around of each
  increment and of each subtraction written out.
\<close>

definition inc64 :: "nat \<Rightarrow> nat" where
  "inc64 n = (n + 1) mod 2 ^ 64"

definition usub32 :: "nat \<Rightarrow> nat \<Rightarrow> nat" where
  "usub32 a b = (a + 2 ^ 32 - b mod 2 ^ 32) mod 2 ^ 32"


section \<open>Instructions and trace records\<close>

text \<open>
  \<^verbatim>\<open>InstInfo\<close> and \<^verbatim>\<open>TraceRec\<close> are declared in \<^verbatim>\<open>trace.h\<close>. The records below have
  the fields that \<^verbatim>\<open>pipeline.cpp\<close> and \<^verbatim>\<open>rob.cpp\<close> read and write. Register ids and
  tags are C \<^verbatim>\<open>int\<close>s with the sentinel \<open>-1\<close>; \<^verbatim>\<open>inst_num\<close> is a \<^verbatim>\<open>uint64_t\<close>.
\<close>

record InstInfo =
  inst_num :: nat
  op_type :: nat
  dest_reg :: int
  src1_reg :: int
  src2_reg :: int
  dr_tag :: int
  src1_tag :: int
  src2_tag :: int
  src1_ready :: bool
  src2_ready :: bool
  exe_wait_cycles :: int

record TraceRec =
  t_op_type :: nat
  t_dest_needed :: bool
  t_dest_reg :: nat
  t_src1_needed :: bool
  t_src1_reg :: nat
  t_src2_needed :: bool
  t_src2_reg :: nat

text \<open>All structures are allocated with \<^verbatim>\<open>calloc\<close>, so an untouched instruction is all zero.\<close>

definition zero_inst :: InstInfo where
  "zero_inst = \<lparr>inst_num = 0, op_type = 0, dest_reg = 0, src1_reg = 0, src2_reg = 0,
     dr_tag = 0, src1_tag = 0, src2_tag = 0, src1_ready = False, src2_ready = False,
     exe_wait_cycles = 0\<rparr>"


section \<open>Register alias table (rat.h, rat.cpp)\<close>

text \<open>
  \<^verbatim>\<open>RAT.entries\<close> is a C array of \<^verbatim>\<open>MAX_ARF_REGS\<close> entries that the three operations
  index with an unchecked \<^verbatim>\<open>int\<close>. The table is a function from every \<^verbatim>\<open>int\<close> index to
  an entry: the indices in \<open>[0, MAX_ARF_REGS)\<close> are the array, and an index outside
  that range stands for the memory next to the array, which is what the C code reads
  and writes when it is handed such an index. \<^verbatim>\<open>rat_init\<close> zeroes the array only, so
  the contents of the neighbouring memory are a parameter of \<^verbatim>\<open>rat_init\<close>.

  \<^verbatim>\<open>prf_id\<close> is a \<^verbatim>\<open>uint64_t\<close> that \<^verbatim>\<open>rat_set_remap\<close> fills from an \<^verbatim>\<open>int\<close> and
  \<^verbatim>\<open>rat_get_remap\<close> returns as an \<^verbatim>\<open>int\<close>; the field holds that \<^verbatim>\<open>int\<close>.
\<close>

record RATEntry =
  valid_rat :: bool
  prf_id :: int

type_synonym RAT = "int \<Rightarrow> RATEntry"

definition rat_init :: "RAT \<Rightarrow> RAT" where
  "rat_init mem = (\<lambda>i. if 0 \<le> i \<and> i < MAX_ARF_REGS
                         then \<lparr>valid_rat = False, prf_id = 0\<rparr> else mem i)"

definition rat_get_remap :: "RAT \<Rightarrow> int \<Rightarrow> int" where
  "rat_get_remap rat arf_id =
     (if valid_rat (rat arf_id) then prf_id (rat arf_id) else - 1)"

definition rat_set_remap :: "RAT \<Rightarrow> int \<Rightarrow> int \<Rightarrow> RAT" where
  "rat_set_remap rat arf_id p =
     rat(arf_id := (rat arf_id)\<lparr>valid_rat := True, prf_id := p\<rparr>)"

definition rat_reset_entry :: "RAT \<Rightarrow> int \<Rightarrow> RAT" where
  "rat_reset_entry rat arf_id = rat(arf_id := (rat arf_id)\<lparr>valid_rat := False\<rparr>)"


section \<open>Re-order buffer (rob.h, rob.cpp)\<close>

text \<open>
  The entries are indexed by C \<^verbatim>\<open>int\<close>s (\<^verbatim>\<open>head_ptr\<close>, \<^verbatim>\<open>tail_ptr\<close>, tags), so the
  array is a function on \<^verbatim>\<open>int\<close>.
\<close>

record ROBEntry =
  valid :: bool
  exec :: bool
  ready :: bool
  inst :: InstInfo

record ROB =
  entries :: "int \<Rightarrow> ROBEntry"
  head_ptr :: int
  tail_ptr :: int

definition rob_init :: ROB where
  "rob_init = \<lparr>entries = (\<lambda>i. \<lparr>valid = False, exec = False, ready = False, inst = zero_inst\<rparr>),
               head_ptr = 0, tail_ptr = 0\<rparr>"

definition rob_check_space :: "ROB \<Rightarrow> bool" where
  "rob_check_space rob =
     (if tail_ptr rob = head_ptr rob
      then (if valid (entries rob (head_ptr rob)) = False then True else False)
      else True)"

text \<open>\<^verbatim>\<open>rob_insert\<close> returns the updated buffer and the C return value.\<close>

definition rob_insert :: "config \<Rightarrow> ROB \<Rightarrow> InstInfo \<Rightarrow> ROB \<times> int" where
  "rob_insert cfg rob i =
     (if rob_check_space rob
      then (let idx = tail_ptr rob in
            (rob\<lparr>entries := (entries rob)
                    (idx := \<lparr>valid = True, exec = False, ready = False, inst = i\<rparr>),
                 tail_ptr := (tail_ptr rob + 1) mod int (NUM_ROB_ENTRIES cfg)\<rparr>,
             idx))
      else (rob, - 1))"

definition rob_mark_exec :: "ROB \<Rightarrow> InstInfo \<Rightarrow> ROB" where
  "rob_mark_exec rob i =
     rob\<lparr>entries := (entries rob)(dr_tag i := (entries rob (dr_tag i))\<lparr>exec := True\<rparr>)\<rparr>"

definition rob_mark_ready :: "ROB \<Rightarrow> InstInfo \<Rightarrow> ROB" where
  "rob_mark_ready rob i =
     rob\<lparr>entries := (entries rob)(dr_tag i := (entries rob (dr_tag i))\<lparr>ready := True\<rparr>)\<rparr>"

definition rob_check_ready :: "ROB \<Rightarrow> int \<Rightarrow> bool" where
  "rob_check_ready rob tag =
     (if valid (entries rob tag) \<and> ready (entries rob tag) then True else False)"

definition rob_check_head :: "ROB \<Rightarrow> bool" where
  "rob_check_head rob = (if rob_check_ready rob (head_ptr rob) then True else False)"

text \<open>The body of the do-while loop of \<^verbatim>\<open>rob_wakeup\<close>, on slot \<open>i\<close>.\<close>

definition wakeup_slot :: "int \<Rightarrow> int \<Rightarrow> ROB \<Rightarrow> ROB" where
  "wakeup_slot tag i rob =
     (let rob1 = (if valid (entries rob i) \<and> src1_tag (inst (entries rob i)) = tag
                  then rob\<lparr>entries := (entries rob)
                         (i := (entries rob i)\<lparr>inst := (inst (entries rob i))\<lparr>src1_ready := True\<rparr>\<rparr>)\<rparr>
                  else rob)
      in (if valid (entries rob1 i) \<and> src2_tag (inst (entries rob1 i)) = tag
          then rob1\<lparr>entries := (entries rob1)
                 (i := (entries rob1 i)\<lparr>inst := (inst (entries rob1 i))\<lparr>src2_ready := True\<rparr>\<rparr>)\<rparr>
          else rob1))"

text \<open>
  The do-while loop itself: it stops when the advanced index meets \<^verbatim>\<open>tail\<close>, and
  runs forever when it never does; \<open>None\<close> is the loop that does not return.
\<close>

partial_function (option) rob_wakeup_loop :: "config \<Rightarrow> int \<Rightarrow> int \<Rightarrow> int \<Rightarrow> ROB \<Rightarrow> ROB option" where
  "rob_wakeup_loop cfg tag tail i rob =
     (let rob' = wakeup_slot tag i rob;
          i' = (i + 1) mod int (NUM_ROB_ENTRIES cfg)
      in if i' \<noteq> tail then rob_wakeup_loop cfg tag tail i' rob' else Some rob')"

declare rob_wakeup_loop.simps [code]

definition rob_wakeup :: "config \<Rightarrow> ROB \<Rightarrow> int \<Rightarrow> ROB option" where
  "rob_wakeup cfg rob tag = rob_wakeup_loop cfg tag (tail_ptr rob) (head_ptr rob) rob"

text \<open>
  \<^verbatim>\<open>rob_remove_head\<close> returns its local \<^verbatim>\<open>headEntry\<close>, which is assigned only when the
  head is valid and ready. \<open>None\<close> is the local that was never assigned.
\<close>

definition rob_remove_head :: "config \<Rightarrow> ROB \<Rightarrow> InstInfo option \<times> ROB" where
  "rob_remove_head cfg rob =
     (if valid (entries rob (head_ptr rob)) \<and> ready (entries rob (head_ptr rob))
      then (Some (inst (entries rob (head_ptr rob))),
            rob\<lparr>entries := (entries rob)
                   (head_ptr rob := (entries rob (head_ptr rob))
                                      \<lparr>valid := False, exec := False, ready := False\<rparr>),
                head_ptr := (head_ptr rob + 1) mod int (NUM_ROB_ENTRIES cfg)\<rparr>)
      else (None, rob))"


section \<open>Execution queue (exeq.h, exeq.cpp)\<close>

text \<open>
  Modelled from the spec: \<^verbatim>\<open>exeq.h\<close> and \<^verbatim>\<open>exeq.cpp\<close> are not part of the sources at
  hand. The specification describes the queue as an unordered set of instructions with
  remaining-cycle counters and a capacity of \<^verbatim>\<open>MAX_WRITEBACKS\<close>: \<^verbatim>\<open>insert\<close> adds an
  instruction with its counter set from the op type (\<^verbatim>\<open>LOAD_EXE_CYCLES\<close> for a load, 1
  otherwise) and returns false when the queue is full; \<^verbatim>\<open>cycle\<close> decrements every
  counter; an entry is done once its counter has reached zero; \<^verbatim>\<open>check_done\<close> says
  whether some entry is done; \<^verbatim>\<open>remove\<close> takes out one done entry, preferring the one
  that finished earlier and, among those of one cycle, the smaller instruction number.
  The counter is the field \<^verbatim>\<open>exe_wait_cycles\<close> of the instruction.
\<close>

type_synonym EXEQ = "InstInfo list"

definition exeq_init :: EXEQ where
  "exeq_init = []"

definition exeq_insert :: "config \<Rightarrow> EXEQ \<Rightarrow> InstInfo \<Rightarrow> bool \<times> EXEQ" where
  "exeq_insert cfg q i =
     (if MAX_WRITEBACKS \<le> length q then (False, q)
      else (True, q @ [i\<lparr>exe_wait_cycles :=
                           (if op_type i = OP_LD cfg then int (LOAD_EXE_CYCLES cfg) else 1)\<rparr>]))"

definition exeq_cycle :: "EXEQ \<Rightarrow> EXEQ" where
  "exeq_cycle q = map (\<lambda>e. e\<lparr>exe_wait_cycles := exe_wait_cycles e - 1\<rparr>) q"

definition exeq_done :: "InstInfo \<Rightarrow> bool" where
  "exeq_done e \<longleftrightarrow> exe_wait_cycles e \<le> 0"

definition exeq_check_done :: "EXEQ \<Rightarrow> bool" where
  "exeq_check_done q = list_ex exeq_done q"

definition exeq_before :: "InstInfo \<Rightarrow> InstInfo \<Rightarrow> bool" where
  "exeq_before a b \<longleftrightarrow>
     exe_wait_cycles a < exe_wait_cycles b \<or>
     (exe_wait_cycles a = exe_wait_cycles b \<and> inst_num a < inst_num b)"

fun exeq_pick :: "EXEQ \<Rightarrow> InstInfo option" where
  "exeq_pick [] = None"
| "exeq_pick (e # es) =
     (case exeq_pick es of
        None \<Rightarrow> (if exeq_done e then Some e else None)
      | Some b \<Rightarrow> (if exeq_done e \<and> \<not> exeq_before b e then Some e else Some b))"

definition exeq_remove :: "EXEQ \<Rightarrow> (InstInfo \<times> EXEQ) option" where
  "exeq_remove q = (case exeq_pick q of None \<Rightarrow> None | Some e \<Rightarrow> Some (e, remove1 e q))"


section \<open>Pipeline state (pipeline.h)\<close>

record PipelineLatch =
  valid_latch :: bool
  stall :: bool
  inst_latch :: InstInfo

definition zero_latch :: PipelineLatch where
  "zero_latch = \<lparr>valid_latch = False, stall = False, inst_latch = zero_inst\<rparr>"

text \<open>
  The latch arrays are indexed by \<^verbatim>\<open>unsigned int\<close> loop counters. \<^verbatim>\<open>trace\<close> stands for
  \<^verbatim>\<open>trace_fd\<close>: the records not yet read from the file; a read at the end of the list is
  the end of the file. A short read and a failed read change the pipeline exactly as the
  end of the file does and are not told apart. \<^verbatim>\<open>next_inst_num\<close> is the static local of
  \<^verbatim>\<open>pipe_cycle_decode\<close>.

  \<^verbatim>\<open>retired_log\<close> is a history variable that the C struct does not have: it records
  the \<^verbatim>\<open>inst_num\<close> of every instruction handed to \<^verbatim>\<open>pipe_commit_inst\<close>, in call order.
  No operation reads it.
\<close>

record Pipeline =
  FE_latch :: "nat \<Rightarrow> PipelineLatch"
  ID_latch :: "nat \<Rightarrow> PipelineLatch"
  SC_latch :: "nat \<Rightarrow> PipelineLatch"
  EX_latch :: "nat \<Rightarrow> PipelineLatch"
  rob :: ROB
  rat :: RAT
  exeq :: EXEQ
  stat_retired_inst :: nat
  stat_num_cycle :: nat
  trace :: "TraceRec list"
  last_inst_num :: nat
  halt_inst_num :: nat
  halt :: bool
  next_inst_num :: nat
  retired_log :: "nat list"


section \<open>Pipeline engine (pipeline.cpp)\<close>

subsection \<open>Fetching one instruction\<close>

text \<open>The error branch of \<^verbatim>\<open>pipe_fetch_inst\<close>, for the latch of lane \<open>i\<close>.\<close>

definition fetch_fail :: "nat \<Rightarrow> Pipeline \<Rightarrow> Pipeline" where
  "fetch_fail i p =
     (let p1 = p\<lparr>FE_latch := (FE_latch p)(i := (FE_latch p i)\<lparr>valid_latch := False\<rparr>),
                 halt_inst_num := last_inst_num p\<rparr>
      in if halt_inst_num p1 \<le> stat_retired_inst p1 then p1\<lparr>halt := True\<rparr> else p1)"

definition pipe_fetch_inst :: "config \<Rightarrow> nat \<Rightarrow> Pipeline \<Rightarrow> Pipeline" where
  "pipe_fetch_inst cfg i p =
     (case trace p of
        [] \<Rightarrow> fetch_fail i p
      | r # rest \<Rightarrow>
          if NUM_OP_TYPES cfg \<le> t_op_type r then fetch_fail i (p\<lparr>trace := rest\<rparr>)
          else p\<lparr>trace := rest,
                 last_inst_num := inc64 (last_inst_num p),
                 FE_latch := (FE_latch p)
                   (i := \<lparr>valid_latch = True, stall = False,
                          inst_latch =
                            \<lparr>inst_num = inc64 (last_inst_num p),
                             op_type = t_op_type r,
                             dest_reg = (if t_dest_needed r then int (t_dest_reg r) else - 1),
                             src1_reg = (if t_src1_needed r then int (t_src1_reg r) else - 1),
                             src2_reg = (if t_src2_needed r then int (t_src2_reg r) else - 1),
                             dr_tag = - 1, src1_tag = - 1, src2_tag = - 1,
                             src1_ready = False, src2_ready = False,
                             exe_wait_cycles = 0\<rparr>\<rparr>)\<rparr>)"

subsection \<open>Initialisation\<close>

text \<open>
  \<^verbatim>\<open>pipe_init\<close> takes the trace and the contents of the memory around the RAT array
  (see \<^verbatim>\<open>rat_init\<close>). Everything else is zeroed by \<^verbatim>\<open>calloc\<close>.
\<close>

definition pipe_init :: "TraceRec list \<Rightarrow> RAT \<Rightarrow> Pipeline" where
  "pipe_init tr mem =
     \<lparr>FE_latch = (\<lambda>i. zero_latch), ID_latch = (\<lambda>i. zero_latch),
      SC_latch = (\<lambda>i. zero_latch), EX_latch = (\<lambda>i. zero_latch),
      rob = rob_init, rat = rat_init mem, exeq = exeq_init,
      stat_retired_inst = 0, stat_num_cycle = 0,
      trace = tr, last_inst_num = 0, halt_inst_num = 2 ^ 64 - 4,
      halt = False, next_inst_num = 1, retired_log = []\<rparr>"

subsection \<open>Commit\<close>

definition pipe_commit_inst :: "Pipeline \<Rightarrow> InstInfo \<Rightarrow> Pipeline" where
  "pipe_commit_inst p i =
     (let p1 = p\<lparr>stat_retired_inst := inc64 (stat_retired_inst p),
                 retired_log := retired_log p @ [inst_num i]\<rparr>
      in if halt_inst_num p1 \<le> inst_num i then p1\<lparr>halt := True\<rparr> else p1)"

text \<open>
  What one iteration of the loop of \<^verbatim>\<open>pipe_cycle_commit\<close> does with the instruction
  that \<^verbatim>\<open>rob_remove_head\<close> returned (the buffer is already updated).
\<close>

definition commit_retire :: "nat \<Rightarrow> InstInfo \<Rightarrow> Pipeline \<Rightarrow> Pipeline" where
  "commit_retire i headEntry p =
     (let p1 = pipe_commit_inst p headEntry;
          idx = rat_get_remap (rat p1) (dest_reg headEntry);
          p2 = (if idx = dr_tag headEntry
                then p1\<lparr>rat := rat_reset_entry (rat p1) (dest_reg headEntry)\<rparr> else p1)
      in if rob_check_space (rob p2)
         then p2\<lparr>ID_latch := (ID_latch p2)(i := (ID_latch p2 i)\<lparr>stall := False\<rparr>)\<rparr>
         else p2\<lparr>ID_latch := (ID_latch p2)(i := (ID_latch p2 i)\<lparr>stall := True\<rparr>)\<rparr>)"

text \<open>
  One iteration of the loop. \<^verbatim>\<open>rob_remove_head\<close> is called only after
  \<^verbatim>\<open>rob_check_head\<close> has succeeded, so it always assigns its result; the \<open>None\<close> branch
  is there for totality and is never taken (lemma \<open>rob_remove_head_checked\<close>).
\<close>

definition commit_lane :: "config \<Rightarrow> nat \<Rightarrow> Pipeline \<Rightarrow> Pipeline" where
  "commit_lane cfg i p =
     (if rob_check_head (rob p)
      then (case rob_remove_head cfg (rob p) of
              (Some headEntry, rob') \<Rightarrow> commit_retire i headEntry (p\<lparr>rob := rob'\<rparr>)
            | (None, rob') \<Rightarrow> p\<lparr>rob := rob'\<rparr>)
      else p)"

definition pipe_cycle_commit :: "config \<Rightarrow> Pipeline \<Rightarrow> Pipeline" where
  "pipe_cycle_commit cfg p = fold (commit_lane cfg) [0..<PIPE_WIDTH cfg] p"

subsection \<open>Writeback\<close>

definition writeback_lane :: "config \<Rightarrow> nat \<Rightarrow> Pipeline \<Rightarrow> Pipeline option" where
  "writeback_lane cfg i p =
     (if stall (EX_latch p i) = False \<and> valid_latch (EX_latch p i) = True
      then do {
        rob1 \<leftarrow> rob_wakeup cfg (rob p) (dr_tag (inst_latch (EX_latch p i)));
        Some (p\<lparr>rob := rob_mark_ready rob1 (inst_latch (EX_latch p i)),
                EX_latch := (EX_latch p)(i := (EX_latch p i)\<lparr>valid_latch := False\<rparr>)\<rparr>)
      }
      else Some p)"

text \<open>A counted loop over lanes whose body may fail to return.\<close>

fun for_lanes :: "(nat \<Rightarrow> Pipeline \<Rightarrow> Pipeline option) \<Rightarrow> nat list \<Rightarrow> Pipeline \<Rightarrow> Pipeline option" where
  "for_lanes body [] p = Some p"
| "for_lanes body (i # is) p = (case body i p of None \<Rightarrow> None | Some p' \<Rightarrow> for_lanes body is p')"

definition pipe_cycle_writeback :: "config \<Rightarrow> Pipeline \<Rightarrow> Pipeline option" where
  "pipe_cycle_writeback cfg p = for_lanes (writeback_lane cfg) [0..<MAX_WRITEBACKS] p"

subsection \<open>Execute\<close>

text \<open>
  The first loop of the multi-cycle branch. The result says whether the loop ran to its
  end (\<open>True\<close>) or left \<^verbatim>\<open>pipe_cycle_exe\<close> through the \<^verbatim>\<open>return\<close> after a failed
  \<^verbatim>\<open>exeq_insert\<close> (\<open>False\<close>).
\<close>

fun exe_drain :: "config \<Rightarrow> nat list \<Rightarrow> Pipeline \<Rightarrow> bool \<times> Pipeline" where
  "exe_drain cfg [] p = (True, p)"
| "exe_drain cfg (i # is) p =
     (if valid_latch (SC_latch p i)
      then (case exeq_insert cfg (exeq p) (inst_latch (SC_latch p i)) of
              (False, q) \<Rightarrow> (False, p\<lparr>exeq := q, halt := True\<rparr>)
            | (True, q) \<Rightarrow>
                exe_drain cfg is
                  (p\<lparr>exeq := q,
                     SC_latch := (SC_latch p)(i := (SC_latch p i)\<lparr>valid_latch := False\<rparr>)\<rparr>))
      else exe_drain cfg is p)"

function exe_transfer :: "nat \<Rightarrow> Pipeline \<Rightarrow> Pipeline" where
  "exe_transfer i p =
     (if i < MAX_WRITEBACKS \<and> exeq_check_done (exeq p)
      then (case exeq_remove (exeq p) of
              None \<Rightarrow> p
            | Some (e, q) \<Rightarrow>
                exe_transfer (i + 1)
                  (p\<lparr>EX_latch := (EX_latch p)
                        (i := \<lparr>valid_latch = True, stall = False, inst_latch = e\<rparr>),
                     exeq := q\<rparr>))
      else p)"
  by pat_completeness auto
termination
  by (relation "measure (\<lambda>(i, p). MAX_WRITEBACKS - i)") auto

definition exe_copy_lane :: "nat \<Rightarrow> Pipeline \<Rightarrow> Pipeline" where
  "exe_copy_lane i p =
     (if valid_latch (SC_latch p i)
      then p\<lparr>EX_latch := (EX_latch p)(i := SC_latch p i),
             SC_latch := (SC_latch p)(i := (SC_latch p i)\<lparr>valid_latch := False\<rparr>)\<rparr>
      else p)"

definition pipe_cycle_exe :: "config \<Rightarrow> Pipeline \<Rightarrow> Pipeline" where
  "pipe_cycle_exe cfg p =
     (if LOAD_EXE_CYCLES cfg = 1 then fold exe_copy_lane [0..<PIPE_WIDTH cfg] p
      else (case exe_drain cfg [0..<PIPE_WIDTH cfg] p of
              (False, p') \<Rightarrow> p'
            | (True, p') \<Rightarrow> exe_transfer 0 (p'\<lparr>exeq := exeq_cycle (exeq p')\<rparr>)))"

subsection \<open>Schedule\<close>

text \<open>
  Whether both sources of ROB slot \<open>j\<close> are ready: the two locals \<^verbatim>\<open>src1_ready\<close> and
  \<^verbatim>\<open>src2_ready\<close> of the scan.
\<close>

definition srcs_ready :: "ROB \<Rightarrow> int \<Rightarrow> bool" where
  "srcs_ready r j =
     (let src1_ok = (src1_reg (inst (entries r j)) = - 1 \<or> src1_ready (inst (entries r j)));
          src2_ok = (src2_reg (inst (entries r j)) = - 1 \<or> src2_ready (inst (entries r j)))
      in \<not> (src1_ok = False \<or> src2_ok = False))"

text \<open>Sending ROB slot \<open>j\<close> to the SC latch of lane \<open>i\<close>.\<close>

definition sched_send :: "nat \<Rightarrow> int \<Rightarrow> Pipeline \<Rightarrow> Pipeline" where
  "sched_send i j p =
     (let p1 = p\<lparr>rob := rob_mark_exec (rob p) (inst (entries (rob p) j))\<rparr>
      in p1\<lparr>SC_latch := (SC_latch p1)
              (i := (SC_latch p1 i)\<lparr>inst_latch := inst (entries (rob p1) j),
                                     valid_latch := True\<rparr>)\<rparr>)"

definition sched_hold :: "nat \<Rightarrow> Pipeline \<Rightarrow> Pipeline" where
  "sched_hold i p = p\<lparr>SC_latch := (SC_latch p)(i := (SC_latch p i)\<lparr>valid_latch := False\<rparr>)\<rparr>"

text \<open>
  The do-while scans of one lane, from slot \<open>j\<close> on. The in-order scan leaves at the
  first valid slot that is not executing; the out-of-order scan leaves only when it
  sends one. Either runs forever if the advanced index never meets \<^verbatim>\<open>tail_ptr\<close>.
\<close>

partial_function (option) sched_scan_in :: "config \<Rightarrow> nat \<Rightarrow> int \<Rightarrow> Pipeline \<Rightarrow> Pipeline option" where
  "sched_scan_in cfg i j p =
     (if valid (entries (rob p) j) = True \<and> exec (entries (rob p) j) = False
      then (if srcs_ready (rob p) j then Some (sched_send i j p) else Some (sched_hold i p))
      else (let j' = (j + 1) mod int (NUM_ROB_ENTRIES cfg)
            in if j' \<noteq> tail_ptr (rob p) then sched_scan_in cfg i j' p else Some p))"

partial_function (option) sched_scan_ooo :: "config \<Rightarrow> nat \<Rightarrow> int \<Rightarrow> Pipeline \<Rightarrow> Pipeline option" where
  "sched_scan_ooo cfg i j p =
     (if valid (entries (rob p) j) = True \<and> exec (entries (rob p) j) = False
         \<and> srcs_ready (rob p) j
      then Some (sched_send i j p)
      else (let p1 = (if valid (entries (rob p) j) = True \<and> exec (entries (rob p) j) = False
                      then sched_hold i p else p);
                j' = (j + 1) mod int (NUM_ROB_ENTRIES cfg)
            in if j' \<noteq> tail_ptr (rob p1) then sched_scan_ooo cfg i j' p1 else Some p1))"

declare sched_scan_in.simps [code]

declare sched_scan_ooo.simps [code]

definition pipe_cycle_schedule :: "config \<Rightarrow> Pipeline \<Rightarrow> Pipeline option" where
  "pipe_cycle_schedule cfg p = do {
     p1 \<leftarrow> (if SCHED_POLICY cfg = SCHED_IN_ORDER
            then for_lanes (\<lambda>i q. sched_scan_in cfg i (head_ptr (rob q)) q) [0..<PIPE_WIDTH cfg] p
            else Some p);
     (if SCHED_POLICY cfg = SCHED_OUT_OF_ORDER
      then for_lanes (\<lambda>i q. sched_scan_ooo cfg i (head_ptr (rob q)) q) [0..<PIPE_WIDTH cfg] p1
      else Some p1)
   }"

subsection \<open>Issue\<close>

text \<open>The bubble sort of the ID latches by \<^verbatim>\<open>inst_num\<close>.\<close>

definition sort_step :: "nat \<Rightarrow> (nat \<Rightarrow> PipelineLatch) \<Rightarrow> (nat \<Rightarrow> PipelineLatch)" where
  "sort_step j l =
     (if inst_num (inst_latch (l j)) > inst_num (inst_latch (l (j + 1)))
      then (let temp = l j in (l(j := l (j + 1)))(j + 1 := temp))
      else l)"

definition sort_pass :: "config \<Rightarrow> nat \<Rightarrow> (nat \<Rightarrow> PipelineLatch) \<Rightarrow> (nat \<Rightarrow> PipelineLatch)" where
  "sort_pass cfg i l = fold sort_step [0..<usub32 (usub32 (PIPE_WIDTH cfg) i) 1] l"

definition sort_ID :: "config \<Rightarrow> (nat \<Rightarrow> PipelineLatch) \<Rightarrow> (nat \<Rightarrow> PipelineLatch)" where
  "sort_ID cfg l = fold (sort_pass cfg) [0..<usub32 (PIPE_WIDTH cfg) 1] l"

text \<open>Assignments to fields of the instruction in ROB slot \<open>idx\<close>.\<close>

definition rob_set_inst :: "ROB \<Rightarrow> int \<Rightarrow> (InstInfo \<Rightarrow> InstInfo) \<Rightarrow> ROB" where
  "rob_set_inst r idx f =
     r\<lparr>entries := (entries r)(idx := (entries r idx)\<lparr>inst := f (inst (entries r idx))\<rparr>)\<rparr>"

definition rename_src1 :: "RAT \<Rightarrow> int \<Rightarrow> ROB \<Rightarrow> ROB" where
  "rename_src1 t idx r =
     (if src1_reg (inst (entries r idx)) \<noteq> - 1
      then (let r1 = rob_set_inst r idx
                       (\<lambda>x. x\<lparr>src1_tag := rat_get_remap t (src1_reg (inst (entries r idx)))\<rparr>)
            in if src1_tag (inst (entries r1 idx)) = - 1
                  \<or> rob_check_ready r1 (src1_tag (inst (entries r1 idx)))
               then rob_set_inst r1 idx (\<lambda>x. x\<lparr>src1_ready := True\<rparr>)
               else rob_set_inst r1 idx (\<lambda>x. x\<lparr>src1_ready := False\<rparr>))
      else r)"

definition rename_src2 :: "RAT \<Rightarrow> int \<Rightarrow> ROB \<Rightarrow> ROB" where
  "rename_src2 t idx r =
     (if src2_reg (inst (entries r idx)) \<noteq> - 1
      then (let r1 = rob_set_inst r idx
                       (\<lambda>x. x\<lparr>src2_tag := rat_get_remap t (src2_reg (inst (entries r idx)))\<rparr>)
            in if src2_tag (inst (entries r1 idx)) = - 1
                  \<or> rob_check_ready r1 (src2_tag (inst (entries r1 idx)))
               then rob_set_inst r1 idx (\<lambda>x. x\<lparr>src2_ready := True\<rparr>)
               else rob_set_inst r1 idx (\<lambda>x. x\<lparr>src2_ready := False\<rparr>))
      else r)"

text \<open>
  The branch of the issue loop taken when \<^verbatim>\<open>rob_check_space\<close> succeeded: insert the
  instruction of ID lane \<open>i\<close>, and rename it if the insertion returned a slot.
\<close>

definition issue_insert :: "config \<Rightarrow> nat \<Rightarrow> Pipeline \<Rightarrow> Pipeline" where
  "issue_insert cfg i p =
     (case rob_insert cfg (rob p) (inst_latch (ID_latch p i)) of
        (r0, idx) \<Rightarrow>
          if idx \<noteq> - 1
          then (let r1 = rename_src1 (rat p) idx r0;
                    r2 = rename_src2 (rat p) idx r1;
                    r3 = rob_set_inst r2 idx (\<lambda>x. x\<lparr>dr_tag := idx\<rparr>);
                    t3 = (if dest_reg (inst (entries r3 idx)) \<noteq> - 1
                          then rat_set_remap (rat p) (dest_reg (inst (entries r3 idx)))
                                 (dr_tag (inst (entries r3 idx)))
                          else rat p)
                in p\<lparr>ID_latch := (ID_latch p)(i := (ID_latch p i)\<lparr>valid_latch := False\<rparr>),
                     rob := r3, rat := t3\<rparr>)
          else p\<lparr>rob := r0\<rparr>)"

text \<open>
  One iteration of the issue loop, for lane \<open>i\<close>. The loop state is the local
  \<^verbatim>\<open>prev_ID_stall\<close> together with the pipeline.
\<close>

definition issue_lane :: "config \<Rightarrow> nat \<Rightarrow> bool \<times> Pipeline \<Rightarrow> bool \<times> Pipeline" where
  "issue_lane cfg i s =
     (case s of (prev_ID_stall, p) \<Rightarrow>
        (let p1 = p\<lparr>ID_latch := (ID_latch p)(i := (ID_latch p i)\<lparr>stall := prev_ID_stall\<rparr>)\<rparr>
         in if stall (ID_latch p1 i) = True then (prev_ID_stall, p1)
            else if valid_latch (ID_latch p1 i) = True \<and> stall (ID_latch p1 i) = False
            then (let p2 = (if rob_check_space (rob p1) then issue_insert cfg i p1
                            else p1\<lparr>ID_latch := (ID_latch p1)
                                    (i := (ID_latch p1 i)\<lparr>stall := True\<rparr>)\<rparr>)
                  in (stall (ID_latch p2 i), p2))
            else (prev_ID_stall, p1)))"

definition pipe_cycle_issue :: "config \<Rightarrow> Pipeline \<Rightarrow> Pipeline" where
  "pipe_cycle_issue cfg p =
     snd (fold (issue_lane cfg) [0..<PIPE_WIDTH cfg]
            (False, p\<lparr>ID_latch := sort_ID cfg (ID_latch p)\<rparr>))"

subsection \<open>Decode\<close>

text \<open>
  The inner loop looks for the first FE lane that holds the next instruction in trace
  order and leaves at it.
\<close>

definition decode_lane :: "config \<Rightarrow> nat \<Rightarrow> Pipeline \<Rightarrow> Pipeline" where
  "decode_lane cfg i p =
     (if \<not> stall (ID_latch p i) \<and> \<not> valid_latch (ID_latch p i)
      then (case find (\<lambda>j. valid_latch (FE_latch p j) \<and>
                            inst_num (inst_latch (FE_latch p j)) = next_inst_num p)
                      [0..<PIPE_WIDTH cfg] of
              None \<Rightarrow> p
            | Some j \<Rightarrow>
                p\<lparr>ID_latch := (ID_latch p)(i := FE_latch p j),
                  FE_latch := (FE_latch p)(j := (FE_latch p j)\<lparr>valid_latch := False\<rparr>),
                  next_inst_num := inc64 (next_inst_num p)\<rparr>)
      else p)"

definition pipe_cycle_decode :: "config \<Rightarrow> Pipeline \<Rightarrow> Pipeline" where
  "pipe_cycle_decode cfg p = fold (decode_lane cfg) [0..<PIPE_WIDTH cfg] p"

subsection \<open>Fetch\<close>

definition fetch_lane :: "config \<Rightarrow> nat \<Rightarrow> Pipeline \<Rightarrow> Pipeline" where
  "fetch_lane cfg i p =
     (if \<not> stall (FE_latch p i) \<and> \<not> valid_latch (FE_latch p i)
      then pipe_fetch_inst cfg i p else p)"

definition pipe_cycle_fetch :: "config \<Rightarrow> Pipeline \<Rightarrow> Pipeline" where
  "pipe_cycle_fetch cfg p = fold (fetch_lane cfg) [0..<PIPE_WIDTH cfg] p"

subsection \<open>One cycle, and many\<close>

definition pipe_cycle :: "config \<Rightarrow> Pipeline \<Rightarrow> Pipeline option" where
  "pipe_cycle cfg p = do {
     let p0 = p\<lparr>stat_num_cycle := inc64 (stat_num_cycle p)\<rparr>;
     let p1 = pipe_cycle_commit cfg p0;
     p2 \<leftarrow> pipe_cycle_writeback cfg p1;
     let p3 = pipe_cycle_exe cfg p2;
     p4 \<leftarrow> pipe_cycle_schedule cfg p3;
     let p5 = pipe_cycle_issue cfg p4;
     let p6 = pipe_cycle_decode cfg p5;
     Some (pipe_cycle_fetch cfg p6)
   }"

text \<open>The state after \<open>n\<close> calls of \<^verbatim>\<open>pipe_cycle\<close>.\<close>

fun cycles :: "config \<Rightarrow> nat \<Rightarrow> Pipeline \<Rightarrow> Pipeline option" where
  "cycles cfg 0 p = Some p"
| "cycles cfg (Suc n) p = (case cycles cfg n p of None \<Rightarrow> None | Some q \<Rightarrow> pipe_cycle cfg q)"

text \<open>
  Modelled from the spec: the main loop of the simulator is not part of the sources at
  hand. The specification says that the loop calls the cycle function until the halt
  flag of the pipeline is set, and stops then.
\<close>

partial_function (option) run :: "config \<Rightarrow> Pipeline \<Rightarrow> Pipeline option" where
  "run cfg p = (if halt p then Some p
                else (case pipe_cycle cfg p of None \<Rightarrow> None | Some q \<Rightarrow> run cfg q))"

declare run.simps [code]


section \<open>Notions used in the statements\<close>

text \<open>
  The pipeline \<open>q\<close> with the stall flag set on the ID lanes \<open>i, \<dots>, w - 1\<close> and nothing
  else changed.
\<close>

definition stall_from :: "nat \<Rightarrow> nat \<Rightarrow> Pipeline \<Rightarrow> Pipeline" where
  "stall_from i w q =
     q\<lparr>ID_latch := (\<lambda>j. if i \<le> j \<and> j < w then (ID_latch q j)\<lparr>stall := True\<rparr>
                          else ID_latch q j)\<rparr>"


text \<open>
  Positions on the ring of ROB slots. \<open>ring_dist n i t\<close> is the number of steps
  \<open>i := (i + 1) mod n\<close> after the first one that a do-while loop starting at \<open>i\<close> takes
  until the index meets \<open>t\<close>; \<open>ring_slots n i k\<close> are the \<open>k\<close> slots from \<open>i\<close> on.
\<close>

definition ring_dist :: "int \<Rightarrow> int \<Rightarrow> int \<Rightarrow> nat" where
  "ring_dist n i t = nat ((t - i - 1) mod n)"

definition ring_slots :: "int \<Rightarrow> int \<Rightarrow> nat \<Rightarrow> int list" where
  "ring_slots n i k = map (\<lambda>j. (i + int j) mod n) [0..<k]"

text \<open>
  The slots from \<^verbatim>\<open>head_ptr\<close> (inclusive) to \<^verbatim>\<open>tail_ptr\<close> (exclusive), in ring order;
  all slots when the two pointers are equal.
\<close>

definition window_slots :: "config \<Rightarrow> ROB \<Rightarrow> int list" where
  "window_slots cfg r =
     ring_slots (int (NUM_ROB_ENTRIES cfg)) (head_ptr r)
       (Suc (ring_dist (int (NUM_ROB_ENTRIES cfg)) (head_ptr r) (tail_ptr r)))"

definition rob_ptrs_ok :: "config \<Rightarrow> ROB \<Rightarrow> bool" where
  "rob_ptrs_ok cfg r \<longleftrightarrow>
     0 \<le> head_ptr r \<and> head_ptr r < int (NUM_ROB_ENTRIES cfg) \<and>
     0 \<le> tail_ptr r \<and> tail_ptr r < int (NUM_ROB_ENTRIES cfg)"

text \<open>
  A ROB entry after the broadcast of \<open>tag\<close>: a valid entry has each source flag set whose
  tag is \<open>tag\<close>; nothing else changes.
\<close>

definition wake :: "int \<Rightarrow> ROBEntry \<Rightarrow> ROBEntry" where
  "wake tag e =
     (if valid e
      then e\<lparr>inst := (inst e)\<lparr>src1_ready := src1_ready (inst e) \<or> src1_tag (inst e) = tag,
                               src2_ready := src2_ready (inst e) \<or> src2_tag (inst e) = tag\<rparr>\<rparr>
      else e)"

definition rob_woken :: "config \<Rightarrow> ROB \<Rightarrow> int \<Rightarrow> ROB" where
  "rob_woken cfg r tag =
     r\<lparr>entries := (\<lambda>k. if k \<in> set (window_slots cfg r) then wake tag (entries r k)
                         else entries r k)\<rparr>"

text \<open>
  What the writeback stage may change in the ROB: the pointers, the valid flags and the
  source tags stay, and source flags are only ever set.
\<close>

definition woken_le :: "ROB \<Rightarrow> ROB \<Rightarrow> bool" where
  "woken_le r r' \<longleftrightarrow>
     head_ptr r' = head_ptr r \<and> tail_ptr r' = tail_ptr r \<and>
     (\<forall>k. valid (entries r' k) = valid (entries r k) \<and>
          src1_tag (inst (entries r' k)) = src1_tag (inst (entries r k)) \<and>
          src2_tag (inst (entries r' k)) = src2_tag (inst (entries r k)) \<and>
          (src1_ready (inst (entries r k)) \<longrightarrow> src1_ready (inst (entries r' k))) \<and>
          (src2_ready (inst (entries r k)) \<longrightarrow> src2_ready (inst (entries r' k))))"

text \<open>
  The loop invariant of the writeback stage started in \<open>p\<close>, after the lanes \<open>xs\<close>: every
  EX slot is as in \<open>p\<close> or has been visited and is invalid, and every valid ROB entry has
  the source flags set whose tag is the destination tag of a producer that was processed.
\<close>

definition wb_inv :: "config \<Rightarrow> Pipeline \<Rightarrow> nat list \<Rightarrow> Pipeline \<Rightarrow> bool" where
  "wb_inv cfg p xs q \<longleftrightarrow>
     woken_le (rob p) (rob q) \<and>
     (\<forall>j. EX_latch q j = EX_latch p j \<or> (j \<in> set xs \<and> \<not> valid_latch (EX_latch q j))) \<and>
     (\<forall>j k. j \<in> set xs \<and> valid_latch (EX_latch p j) \<and> \<not> stall (EX_latch p j) \<and>
            valid (entries (rob q) k) \<longrightarrow>
        (src1_tag (inst (entries (rob q) k)) = dr_tag (inst_latch (EX_latch p j))
           \<longrightarrow> src1_ready (inst (entries (rob q) k))) \<and>
        (src2_tag (inst (entries (rob q) k)) = dr_tag (inst_latch (EX_latch p j))
           \<longrightarrow> src2_ready (inst (entries (rob q) k))))"

text \<open>
  What writeback, execute and schedule leave alone: the front of the pipeline, the
  counters, the RAT, and in the ROB the pointers, the valid flags and the instruction
  numbers. A halt flag that is set stays set.
\<close>

definition rob_skel :: "ROB \<Rightarrow> ROB \<Rightarrow> bool" where
  "rob_skel r r' \<longleftrightarrow>
     head_ptr r' = head_ptr r \<and> tail_ptr r' = tail_ptr r \<and>
     (\<forall>k. valid (entries r' k) = valid (entries r k) \<and>
          inst_num (inst (entries r' k)) = inst_num (inst (entries r k)))"

definition backend_rel :: "Pipeline \<Rightarrow> Pipeline \<Rightarrow> bool" where
  "backend_rel p p' \<longleftrightarrow>
     FE_latch p' = FE_latch p \<and> ID_latch p' = ID_latch p \<and>
     stat_retired_inst p' = stat_retired_inst p \<and> stat_num_cycle p' = stat_num_cycle p \<and>
     trace p' = trace p \<and> last_inst_num p' = last_inst_num p \<and>
     halt_inst_num p' = halt_inst_num p \<and> next_inst_num p' = next_inst_num p \<and>
     retired_log p' = retired_log p \<and> rat p' = rat p \<and>
     (halt p \<longrightarrow> halt p') \<and> rob_skel (rob p) (rob p')"


text \<open>The execute stage, in addition, does not touch the ROB at all.\<close>

definition exe_rel :: "Pipeline \<Rightarrow> Pipeline \<Rightarrow> bool" where
  "exe_rel p p' \<longleftrightarrow> backend_rel p p' \<and> rob p' = rob p"


subsection \<open>The invariant behind the commit order\<close>

text \<open>
  Slot \<open>j\<close> of the buffer, counted from the head, and the buffer as a queue: it holds
  \<open>c\<close> valid entries, in the slots from the head up to the tail, their instruction
  numbers are \<open>base\<close>, \<open>base + 1\<close>, ... in that order, and no other slot is valid.
\<close>

definition rob_slot :: "config \<Rightarrow> ROB \<Rightarrow> nat \<Rightarrow> int" where
  "rob_slot cfg r j = (head_ptr r + int j) mod int (NUM_ROB_ENTRIES cfg)"

definition rob_fifo :: "config \<Rightarrow> ROB \<Rightarrow> nat \<Rightarrow> nat \<Rightarrow> bool" where
  "rob_fifo cfg r c base \<longleftrightarrow>
     rob_ptrs_ok cfg r \<and> c \<le> NUM_ROB_ENTRIES cfg \<and>
     tail_ptr r = (head_ptr r + int c) mod int (NUM_ROB_ENTRIES cfg) \<and>
     (\<forall>j<c. valid (entries r (rob_slot cfg r j)) \<and>
             inst_num (inst (entries r (rob_slot cfg r j))) = base + j) \<and>
     (\<forall>k. valid (entries r k) \<longrightarrow> (\<exists>j<c. k = rob_slot cfg r j))"

text \<open>
  The valid lanes of a latch array hold exactly the instruction numbers \<open>a\<close>, ...,
  \<open>b - 1\<close>, each of them once.
\<close>

definition latch_cover :: "nat \<Rightarrow> (nat \<Rightarrow> PipelineLatch) \<Rightarrow> nat \<Rightarrow> nat \<Rightarrow> bool" where
  "latch_cover w l a b \<longleftrightarrow>
     (\<forall>i<w. valid_latch (l i) \<longrightarrow>
        a \<le> inst_num (inst_latch (l i)) \<and> inst_num (inst_latch (l i)) < b) \<and>
     (\<forall>i<w. \<forall>j<w. valid_latch (l i) \<and> valid_latch (l j) \<and>
        inst_num (inst_latch (l i)) = inst_num (inst_latch (l j)) \<longrightarrow> i = j) \<and>
     (\<forall>m. a \<le> m \<and> m < b \<longrightarrow> (\<exists>i<w. valid_latch (l i) \<and> inst_num (inst_latch (l i)) = m))"

text \<open>
  The invariant of the pipeline, with \<open>c\<close> the number of instructions in the ROB: the
  ROB holds the instructions that follow the retired ones, the ID latches those that
  follow the ROB's, the FE latches those that follow the decoded ones up to the last one
  fetched; the counters do not wrap; and the log of retired instruction numbers is
  \<open>1, 2, ...\<close> up to the number of retired instructions.
\<close>

definition pipe_inv :: "config \<Rightarrow> nat \<Rightarrow> Pipeline \<Rightarrow> bool" where
  "pipe_inv cfg c p \<longleftrightarrow>
     rob_fifo cfg (rob p) c (Suc (stat_retired_inst p)) \<and>
     latch_cover (PIPE_WIDTH cfg) (ID_latch p) (Suc (stat_retired_inst p + c)) (next_inst_num p) \<and>
     latch_cover (PIPE_WIDTH cfg) (FE_latch p) (next_inst_num p) (Suc (last_inst_num p)) \<and>
     Suc (stat_retired_inst p + c) \<le> next_inst_num p \<and>
     next_inst_num p \<le> Suc (last_inst_num p) \<and>
     last_inst_num p + length (trace p) < 2 ^ 64 - 1 \<and>
     retired_log p = [1..<Suc (stat_retired_inst p)]"

text \<open>
  For the bubble sort of the issue stage: a transposition of lanes, latch arrays that are
  permutations of each other on the lanes below \<open>w\<close>, arrays sorted by instruction
  number, and arrays whose lanes from \<open>k\<close> on are sorted and hold the largest numbers.
\<close>

definition lane_swap :: "nat \<Rightarrow> nat \<Rightarrow> nat \<Rightarrow> nat" where
  "lane_swap j k i = (if i = j then k else if i = k then j else i)"

definition perm_lanes :: "nat \<Rightarrow> (nat \<Rightarrow> PipelineLatch) \<Rightarrow> (nat \<Rightarrow> PipelineLatch) \<Rightarrow> bool" where
  "perm_lanes w l l' \<longleftrightarrow>
     (\<exists>s t. (\<forall>i. t (s i) = i \<and> s (t i) = i \<and> l' i = l (s i)) \<and> (\<forall>i. w \<le> i \<longrightarrow> s i = i))"

definition sorted_keys :: "nat \<Rightarrow> (nat \<Rightarrow> PipelineLatch) \<Rightarrow> bool" where
  "sorted_keys w l \<longleftrightarrow>
     (\<forall>x y. x \<le> y \<and> y < w \<longrightarrow> inst_num (inst_latch (l x)) \<le> inst_num (inst_latch (l y)))"

abbreviation key :: "PipelineLatch \<Rightarrow> nat" where
  "key e \<equiv> inst_num (inst_latch e)"

definition top_sorted :: "nat \<Rightarrow> nat \<Rightarrow> (nat \<Rightarrow> PipelineLatch) \<Rightarrow> bool" where
  "top_sorted w k l \<longleftrightarrow>
     (\<forall>x y. k \<le> x \<and> x \<le> y \<and> y < w \<longrightarrow> key (l x) \<le> key (l y)) \<and>
     (\<forall>x y. x < k \<and> k \<le> y \<and> y < w \<longrightarrow> key (l x) \<le> key (l y))"

text \<open>
  The loop invariant of the issue stage. \<open>front_same\<close>: the fields that the issue stage
  does not touch. \<open>issue_core\<close>: the ROB and the sorted ID latches of the state \<open>q\<close> inside
  the loop still partition the instructions between the retired ones and the next one to
  decode. \<open>issue_inv\<close>: in addition, as long as no lane has stalled, all lanes before
  lane \<open>i\<close> have been issued.
\<close>

definition front_same :: "Pipeline \<Rightarrow> Pipeline \<Rightarrow> bool" where
  "front_same p q \<longleftrightarrow>
     FE_latch q = FE_latch p \<and> stat_retired_inst q = stat_retired_inst p \<and>
     next_inst_num q = next_inst_num p \<and> last_inst_num q = last_inst_num p \<and>
     trace q = trace p \<and> retired_log q = retired_log p"

definition issue_core :: "config \<Rightarrow> Pipeline \<Rightarrow> Pipeline \<Rightarrow> bool" where
  "issue_core cfg p q \<longleftrightarrow>
     (\<exists>c. rob_fifo cfg (rob q) c (Suc (stat_retired_inst p)) \<and>
          latch_cover (PIPE_WIDTH cfg) (ID_latch q) (Suc (stat_retired_inst p + c))
            (next_inst_num p) \<and>
          Suc (stat_retired_inst p + c) \<le> next_inst_num p) \<and>
     sorted_keys (PIPE_WIDTH cfg) (ID_latch q) \<and> front_same p q"

definition issue_inv :: "config \<Rightarrow> Pipeline \<Rightarrow> nat \<Rightarrow> bool \<times> Pipeline \<Rightarrow> bool" where
  "issue_inv cfg p i s \<longleftrightarrow>
     issue_core cfg p (snd s) \<and>
     (\<not> fst s \<longrightarrow> (\<forall>j<i. \<not> valid_latch (ID_latch (snd s) j)))"



section \<open>Example inputs\<close>

text \<open>
  The configuration and the trace of the RAW scenario: one lane, four ROB slots,
  single-cycle loads, in-order scheduling; \<open>I1\<close> writes r1 and reads nothing, \<open>I2\<close>
  reads r1 and writes nothing. \<open>mem_zero\<close> is zeroed memory around the RAT array.
\<close>

definition cfg_raw :: config where
  "cfg_raw = \<lparr>PIPE_WIDTH = 1, NUM_ROB_ENTRIES = 4, SCHED_POLICY = SCHED_IN_ORDER,
              LOAD_EXE_CYCLES = 1, NUM_OP_TYPES = 5, OP_LD = 1\<rparr>"

definition I1 :: TraceRec where
  "I1 = \<lparr>t_op_type = 0, t_dest_needed = True, t_dest_reg = 1,
          t_src1_needed = False, t_src1_reg = 0, t_src2_needed = False, t_src2_reg = 0\<rparr>"

definition I2 :: TraceRec where
  "I2 = \<lparr>t_op_type = 0, t_dest_needed = False, t_dest_reg = 0,
          t_src1_needed = True, t_src1_reg = 1, t_src2_needed = False, t_src2_reg = 0\<rparr>"

definition mem_zero :: RAT where
  "mem_zero = (\<lambda>i. \<lparr>valid_rat = False, prf_id = 0\<rparr>)"

text \<open>
  A one-slot ROB whose only slot holds a producer of r1 that is ready to commit, and
  pipelines around it: one in which r1 is still aliased to that slot, one in which a
  younger writer has re-aliased r1 to tag 2, and one in which the producer is not yet
  ready and two decoded instructions wait in the ID lanes of a two-lane pipeline.
\<close>

definition cfg_one :: config where
  "cfg_one = \<lparr>PIPE_WIDTH = 2, NUM_ROB_ENTRIES = 1, SCHED_POLICY = SCHED_IN_ORDER,
              LOAD_EXE_CYCLES = 1, NUM_OP_TYPES = 5, OP_LD = 1\<rparr>"

definition inst_w :: InstInfo where
  "inst_w = \<lparr>inst_num = 1, op_type = 0, dest_reg = 1, src1_reg = - 1, src2_reg = - 1,
     dr_tag = 0, src1_tag = - 1, src2_tag = - 1, src1_ready = False, src2_ready = False,
     exe_wait_cycles = 0\<rparr>"

definition rob_full1 :: ROB where
  "rob_full1 = \<lparr>entries = (entries rob_init)
                   (0 := \<lparr>valid = True, exec = True, ready = True, inst = inst_w\<rparr>),
                head_ptr = 0, tail_ptr = 0\<rparr>"

definition pipe_aliased :: Pipeline where
  "pipe_aliased = (pipe_init [] mem_zero)
     \<lparr>rob := rob_full1, rat := rat_set_remap (rat_init mem_zero) 1 0\<rparr>"

definition pipe_realiased :: Pipeline where
  "pipe_realiased = (pipe_init [] mem_zero)
     \<lparr>rob := rob_full1, rat := rat_set_remap (rat_init mem_zero) 1 2\<rparr>"

definition pipe_waiting :: Pipeline where
  "pipe_waiting = (pipe_init [] mem_zero)
     \<lparr>rob := rob_full1\<lparr>entries := (entries rob_full1)(0 := (entries rob_full1 0)\<lparr>ready := False\<rparr>)\<rparr>,
      ID_latch := (\<lambda>i. zero_latch)
        (0 := \<lparr>valid_latch = True, stall = False, inst_latch = inst_w\<lparr>inst_num := 2\<rparr>\<rparr>,
         1 := \<lparr>valid_latch = True, stall = False, inst_latch = inst_w\<lparr>inst_num := 3\<rparr>\<rparr>)\<rparr>"


text \<open>
  A consumer \<open>inst_r\<close> of r1 whose source is renamed to tag 0, and a pipeline in which
  the producer of tag 0 waits in EX lane 0 for writeback while the consumer sits in ROB
  slot 1. Last, a two-cycle-load configuration and a pipeline whose execution queue is
  full while an instruction waits in SC lane 0.
\<close>

definition inst_r :: InstInfo where
  "inst_r = \<lparr>inst_num = 2, op_type = 0, dest_reg = - 1, src1_reg = 1, src2_reg = - 1,
     dr_tag = 1, src1_tag = 0, src2_tag = - 1, src1_ready = False, src2_ready = False,
     exe_wait_cycles = 0\<rparr>"

definition pipe_wb :: Pipeline where
  "pipe_wb = (pipe_init [] mem_zero)
     \<lparr>rob := \<lparr>entries = (entries rob_init)
                 (0 := \<lparr>valid = True, exec = True, ready = False, inst = inst_w\<rparr>,
                  1 := \<lparr>valid = True, exec = False, ready = False, inst = inst_r\<rparr>),
               head_ptr = 0, tail_ptr = 2\<rparr>,
      EX_latch := (\<lambda>i. zero_latch)
        (0 := \<lparr>valid_latch = True, stall = False, inst_latch = inst_w\<rparr>)\<rparr>"

definition cfg_load2 :: config where
  "cfg_load2 = \<lparr>PIPE_WIDTH = 1, NUM_ROB_ENTRIES = 4, SCHED_POLICY = SCHED_IN_ORDER,
                LOAD_EXE_CYCLES = 2, NUM_OP_TYPES = 5, OP_LD = 1\<rparr>"

definition pipe_overflow :: Pipeline where
  "pipe_overflow = (pipe_init [] mem_zero)
     \<lparr>exeq := replicate 256 inst_w,
      SC_latch := (\<lambda>i. zero_latch)
        (0 := \<lparr>valid_latch = True, stall = False, inst_latch = inst_r\<rparr>)\<rparr>"


text \<open>
  A trace record that needs no register, and memory around the RAT array in which every
  entry looks like a valid alias to tag 0.
\<close>

definition I0 :: TraceRec where
  "I0 = \<lparr>t_op_type = 0, t_dest_needed = False, t_dest_reg = 0,
          t_src1_needed = False, t_src1_reg = 0, t_src2_needed = False, t_src2_reg = 0\<rparr>"

definition mem_hit :: RAT where
  "mem_hit = (\<lambda>i. \<lparr>valid_rat = True, prf_id = 0\<rparr>)"


section \<open>The re-order buffer\<close>

lemma rob_remove_head_checked:
  "rob_check_head r \<Longrightarrow>
   rob_remove_head cfg r =
     (Some (inst (entries r (head_ptr r))),
      r\<lparr>entries := (entries r)(head_ptr r := (entries r (head_ptr r))
                                      \<lparr>valid := False, exec := False, ready := False\<rparr>),
        head_ptr := (head_ptr r + 1) mod int (NUM_ROB_ENTRIES cfg)\<rparr>)"
  by (simp add: rob_remove_head_def rob_check_head_def rob_check_ready_def split: if_splits)

text \<open>
  C5. \<^verbatim>\<open>rob_check_space\<close> is true exactly when the buffer is not full, where full is
  \<^verbatim>\<open>head_ptr == tail_ptr\<close> with a valid head slot (the same pointers with an invalid
  head slot are the empty buffer). \<^verbatim>\<open>rob_insert\<close> on a buffer with space writes the
  instruction into the slot at \<^verbatim>\<open>tail_ptr\<close> with \<^verbatim>\<open>valid\<close> set and \<^verbatim>\<open>exec\<close> and
  \<^verbatim>\<open>ready\<close> cleared, advances \<^verbatim>\<open>tail_ptr\<close> by one modulo \<^verbatim>\<open>NUM_ROB_ENTRIES\<close> and returns
  the index of the slot; on a full buffer it returns \<open>-1\<close> and changes nothing.
\<close>

theorem rob_insert_spec:
  "(rob_check_space r \<longleftrightarrow> \<not> (tail_ptr r = head_ptr r \<and> valid (entries r (head_ptr r)))) \<and>
   rob_insert cfg r i =
     (if rob_check_space r
      then (r\<lparr>entries := (entries r)
                 (tail_ptr r := \<lparr>valid = True, exec = False, ready = False, inst = i\<rparr>),
              tail_ptr := (tail_ptr r + 1) mod int (NUM_ROB_ENTRIES cfg)\<rparr>,
            tail_ptr r)
      else (r, - 1))"
  by (simp add: rob_insert_def rob_check_space_def Let_def)

theorem rob_insert_spec_witness:
  "rob_check_space rob_init \<and>
   snd (rob_insert cfg_raw rob_init inst_w) = 0 \<and>
   tail_ptr (fst (rob_insert cfg_raw rob_init inst_w)) = 1 \<and>
   entries (fst (rob_insert cfg_raw rob_init inst_w)) 0
     = \<lparr>valid = True, exec = False, ready = False, inst = inst_w\<rparr> \<and>
   \<not> rob_check_space rob_full1 \<and>
   rob_insert cfg_one rob_full1 inst_w = (rob_full1, - 1)"
proof -
  have a: "rob_check_space rob_init"
    by (simp add: rob_check_space_def rob_init_def)
  have b: "\<not> rob_check_space rob_full1"
    by (simp add: rob_check_space_def rob_full1_def)
  show ?thesis
    using rob_insert_spec [of rob_init cfg_raw inst_w] rob_insert_spec [of rob_full1 cfg_one inst_w]
    by (simp add: a b) (simp add: rob_init_def cfg_raw_def)
qed

text \<open>
  C10. When \<^verbatim>\<open>rob_remove_head\<close> is called while the head slot is not both valid and
  ready, the buffer is returned exactly as it was (\<^verbatim>\<open>head_ptr\<close>, \<^verbatim>\<open>tail_ptr\<close> and every
  entry), and the result is the local that was never assigned, not the instruction of
  the head slot.
\<close>

theorem rob_remove_head_not_ready:
  "\<not> (valid (entries r (head_ptr r)) \<and> ready (entries r (head_ptr r))) \<Longrightarrow>
   rob_remove_head cfg r = (None, r)"
  by (simp add: rob_remove_head_def)

theorem rob_remove_head_not_ready_witness:
  "\<not> (valid (entries rob_init (head_ptr rob_init)) \<and> ready (entries rob_init (head_ptr rob_init))) \<and>
   rob_remove_head cfg_raw rob_init = (None, rob_init)"
proof -
  have h: "\<not> (valid (entries rob_init (head_ptr rob_init))
              \<and> ready (entries rob_init (head_ptr rob_init)))"
    by (simp add: rob_init_def)
  show ?thesis
    using h rob_remove_head_not_ready [OF h, of cfg_raw] by simp
qed


section \<open>The commit stage and the RAT\<close>

text \<open>
  C7. When the commit stage retires the instruction \<open>h\<close> at the head of the ROB and \<open>h\<close>
  writes a destination register, the RAT entry of that register is reset if and only if
  it is still aliased to the tag of \<open>h\<close>. If it is, the entry is invalid afterwards and
  \<^verbatim>\<open>rat_get_remap\<close> answers \<open>- 1\<close> for the register. Otherwise (the entry is not
  aliased, or a younger writer has re-aliased it to another tag) the entry and its
  remapping are left as they were. The entries of all other registers are unchanged in
  both cases.
\<close>

theorem commit_rat_reset:
  assumes "rob_check_head (rob p)"
    and "h = inst (entries (rob p) (head_ptr (rob p)))"
    and "dest_reg h \<noteq> - 1"
  shows "rat (commit_lane cfg i p) =
           (if valid_rat (rat p (dest_reg h)) \<and> prf_id (rat p (dest_reg h)) = dr_tag h
            then rat_reset_entry (rat p) (dest_reg h) else rat p) \<and>
         (if valid_rat (rat p (dest_reg h)) \<and> prf_id (rat p (dest_reg h)) = dr_tag h
          then rat_get_remap (rat p) (dest_reg h) = dr_tag h \<and>
               rat_get_remap (rat (commit_lane cfg i p)) (dest_reg h) = - 1 \<and>
               \<not> valid_rat (rat (commit_lane cfg i p) (dest_reg h)) \<and>
               prf_id (rat (commit_lane cfg i p) (dest_reg h)) = prf_id (rat p (dest_reg h))
          else rat_get_remap (rat (commit_lane cfg i p)) (dest_reg h)
                 = rat_get_remap (rat p) (dest_reg h) \<and>
               rat (commit_lane cfg i p) (dest_reg h) = rat p (dest_reg h)) \<and>
         (\<forall>a. a \<noteq> dest_reg h \<longrightarrow>
            rat (commit_lane cfg i p) a = rat p a \<and>
            rat_get_remap (rat (commit_lane cfg i p)) a = rat_get_remap (rat p) a)"
proof -
  have idem: "(rat p)(dest_reg h := (rat p (dest_reg h))\<lparr>valid_rat := False\<rparr>) = rat p"
    if "\<not> valid_rat (rat p (dest_reg h))"
    using that by (auto simp: fun_eq_iff)
  have eq: "rat (commit_lane cfg i p) =
           (if valid_rat (rat p (dest_reg h)) \<and> prf_id (rat p (dest_reg h)) = dr_tag h
            then rat_reset_entry (rat p) (dest_reg h) else rat p)"
    using assms idem
    by (auto simp: commit_lane_def rob_remove_head_checked commit_retire_def pipe_commit_inst_def
        rat_get_remap_def rat_reset_entry_def Let_def)
  show ?thesis
    unfolding eq by (simp add: rat_get_remap_def rat_reset_entry_def)
qed

theorem commit_rat_reset_witness:
  "rob_check_head (rob pipe_aliased) \<and> dest_reg inst_w \<noteq> - 1 \<and>
   rat (commit_lane cfg_one 0 pipe_aliased) = rat_reset_entry (rat pipe_aliased) 1 \<and>
   rat_get_remap (rat pipe_aliased) 1 = 0 \<and>
   rat_get_remap (rat (commit_lane cfg_one 0 pipe_aliased)) 1 = - 1 \<and>
   \<not> valid_rat (rat (commit_lane cfg_one 0 pipe_aliased) 1) \<and>
   rat (commit_lane cfg_one 0 pipe_aliased) 2 = rat pipe_aliased 2 \<and>
   rob_check_head (rob pipe_realiased) \<and>
   rat (commit_lane cfg_one 0 pipe_realiased) = rat pipe_realiased \<and>
   rat_get_remap (rat (commit_lane cfg_one 0 pipe_realiased)) 1 = 2"
proof -
  have a: "rob_check_head (rob pipe_aliased)" "rob_check_head (rob pipe_realiased)"
    by (simp_all add: pipe_aliased_def pipe_realiased_def rob_full1_def
        rob_check_head_def rob_check_ready_def)
  have b: "inst_w = inst (entries (rob pipe_aliased) (head_ptr (rob pipe_aliased)))"
    "inst_w = inst (entries (rob pipe_realiased) (head_ptr (rob pipe_realiased)))"
    by (simp_all add: pipe_aliased_def pipe_realiased_def rob_full1_def)
  have c: "dest_reg inst_w \<noteq> - 1"
    by (simp add: inst_w_def)
  have d: "dest_reg inst_w = 1" "dr_tag inst_w = 0"
    by (simp_all add: inst_w_def)
  have e: "valid_rat (rat pipe_aliased 1)" "prf_id (rat pipe_aliased 1) = 0"
    "valid_rat (rat pipe_realiased 1)" "prf_id (rat pipe_realiased 1) = 2"
    by (simp_all add: pipe_aliased_def pipe_realiased_def rat_set_remap_def)
  note t = commit_rat_reset [OF a(1) b(1) c, of cfg_one 0, unfolded d]
  have ca: "valid_rat (rat pipe_aliased 1) \<and> prf_id (rat pipe_aliased 1) = 0"
    by (simp add: e)
  have 1: "rat (commit_lane cfg_one 0 pipe_aliased) = rat_reset_entry (rat pipe_aliased) 1"
    using t [THEN conjunct1] unfolding if_P [OF ca] .
  have "rat_get_remap (rat pipe_aliased) 1 = 0 \<and>
        rat_get_remap (rat (commit_lane cfg_one 0 pipe_aliased)) 1 = - 1 \<and>
        \<not> valid_rat (rat (commit_lane cfg_one 0 pipe_aliased) 1) \<and>
        prf_id (rat (commit_lane cfg_one 0 pipe_aliased) 1) = prf_id (rat pipe_aliased 1)"
    using t [THEN conjunct2, THEN conjunct1] unfolding if_P [OF ca] .
  then have 2: "rat_get_remap (rat pipe_aliased) 1 = 0"
    "rat_get_remap (rat (commit_lane cfg_one 0 pipe_aliased)) 1 = - 1"
    "\<not> valid_rat (rat (commit_lane cfg_one 0 pipe_aliased) 1)"
    by blast+
  have 3: "rat (commit_lane cfg_one 0 pipe_aliased) 2 = rat pipe_aliased 2"
    using t [THEN conjunct2, THEN conjunct2, THEN spec [where x = "2"]] by simp
  note u = commit_rat_reset [OF a(2) b(2) c, of cfg_one 0, unfolded d]
  have cr: "\<not> (valid_rat (rat pipe_realiased 1) \<and> prf_id (rat pipe_realiased 1) = 0)"
    by (simp add: e)
  have 4: "rat (commit_lane cfg_one 0 pipe_realiased) = rat pipe_realiased"
    using u [THEN conjunct1] unfolding if_not_P [OF cr] .
  have "rat_get_remap (rat (commit_lane cfg_one 0 pipe_realiased)) 1
          = rat_get_remap (rat pipe_realiased) 1 \<and>
        rat (commit_lane cfg_one 0 pipe_realiased) 1 = rat pipe_realiased 1"
    using u [THEN conjunct2, THEN conjunct1] unfolding if_not_P [OF cr] .
  moreover have "rat_get_remap (rat pipe_realiased) 1 = 2"
    by (simp add: rat_get_remap_def e)
  ultimately have 5: "rat_get_remap (rat (commit_lane cfg_one 0 pipe_realiased)) 1 = 2"
    by simp
  show ?thesis
    by (intro conjI a c 1 2 3 4 5)
qed


section \<open>The issue stage\<close>

lemma issue_lane_stalled:
  "issue_lane cfg i (True, q) =
     (True, q\<lparr>ID_latch := (ID_latch q)(i := (ID_latch q i)\<lparr>stall := True\<rparr>)\<rparr>)"
  by (simp add: issue_lane_def Let_def)

lemma issue_lane_no_space:
  "valid_latch (ID_latch q i) \<Longrightarrow> \<not> rob_check_space (rob q) \<Longrightarrow>
   issue_lane cfg i (False, q) =
     (True, q\<lparr>ID_latch := (ID_latch q)(i := (ID_latch q i)\<lparr>stall := True\<rparr>)\<rparr>)"
  by (simp add: issue_lane_def Let_def)

lemma issue_rest_stalled:
  "fold (issue_lane cfg) [i..<i + n] (True, q) = (True, stall_from i (i + n) q)"
proof (induction n)
  case 0
  have "(\<lambda>j. if i \<le> j \<and> j < i then (ID_latch q j)\<lparr>stall := True\<rparr> else ID_latch q j)
        = ID_latch q"
    by (auto simp: fun_eq_iff)
  then show ?case by (simp add: stall_from_def)
next
  case (Suc n)
  have "stall_from i (i + n) q
          \<lparr>ID_latch := (ID_latch (stall_from i (i + n) q))
              (i + n := (ID_latch (stall_from i (i + n) q) (i + n))\<lparr>stall := True\<rparr>)\<rparr>
        = stall_from i (Suc (i + n)) q"
    by (auto simp: stall_from_def fun_eq_iff)
  with Suc show ?case
    by (simp add: issue_lane_stalled)
qed

text \<open>
  C9. Stalling is monotone across the lanes of one issue stage. Let \<open>q\<close> and \<open>prev\<close> be
  the pipeline and \<^verbatim>\<open>prev_ID_stall\<close> when the loop (after the sort) reaches lane \<open>i\<close>. If
  an earlier lane has stalled, or the slot of lane \<open>i\<close> is valid and the ROB has no
  space, then the stage ends in \<open>q\<close> with the stall flag set on lane \<open>i\<close> and on every
  later lane, and with nothing else changed: the ROB, the RAT and the valid flags of
  the ID slots are those of \<open>q\<close>, so no instruction of lane \<open>i\<close> or of a later lane is
  inserted into the ROB in this cycle.
\<close>

theorem issue_stall_monotone:
  assumes "fold (issue_lane cfg) [0..<i]
             (False, p\<lparr>ID_latch := sort_ID cfg (ID_latch p)\<rparr>) = (prev, q)"
    and "i < PIPE_WIDTH cfg"
    and "prev \<or> (valid_latch (ID_latch q i) \<and> \<not> rob_check_space (rob q))"
  shows "pipe_cycle_issue cfg p = stall_from i (PIPE_WIDTH cfg) q"
proof -
  obtain n where w: "PIPE_WIDTH cfg = Suc i + n"
    using assms(2) less_iff_Suc_add by auto
  have "[0..<Suc i + n] = [0..<i] @ [i..<Suc i + n]"
    using upt_add_eq_append [of 0 i "Suc n"] by simp
  also have "[i..<Suc i + n] = i # [Suc i..<Suc i + n]"
    by (simp add: upt_conv_Cons)
  finally have split: "[0..<Suc i + n] = [0..<i] @ i # [Suc i..<Suc i + n]" .
  have step: "issue_lane cfg i (prev, q) =
      (True, q\<lparr>ID_latch := (ID_latch q)(i := (ID_latch q i)\<lparr>stall := True\<rparr>)\<rparr>)"
    using assms(3) by (cases prev) (simp_all add: issue_lane_stalled issue_lane_no_space)
  have merge: "stall_from (Suc i) (Suc i + n)
          (q\<lparr>ID_latch := (ID_latch q)(i := (ID_latch q i)\<lparr>stall := True\<rparr>)\<rparr>)
        = stall_from i (Suc i + n) q"
    by (auto simp: stall_from_def fun_eq_iff)
  have "fold (issue_lane cfg) [0..<Suc i + n]
          (False, p\<lparr>ID_latch := sort_ID cfg (ID_latch p)\<rparr>)
        = (True, stall_from i (Suc i + n) q)"
    unfolding split
    by (simp only: fold_append fold_simps comp_apply assms(1) step issue_rest_stalled merge)
  then show ?thesis
    by (simp add: pipe_cycle_issue_def w)
qed

theorem issue_stall_monotone_witness:
  "(0::nat) < PIPE_WIDTH cfg_one \<and>
   valid_latch (ID_latch pipe_waiting 0) \<and> \<not> rob_check_space (rob pipe_waiting) \<and>
   pipe_cycle_issue cfg_one pipe_waiting = stall_from 0 2 pipe_waiting \<and>
   stall (ID_latch (pipe_cycle_issue cfg_one pipe_waiting) 1) \<and>
   valid_latch (ID_latch (pipe_cycle_issue cfg_one pipe_waiting) 1) \<and>
   rob (pipe_cycle_issue cfg_one pipe_waiting) = rob pipe_waiting"
proof -
  have sorted: "sort_ID cfg_one (ID_latch pipe_waiting) = ID_latch pipe_waiting"
    by (simp add: sort_ID_def sort_pass_def sort_step_def usub32_def cfg_one_def
        pipe_waiting_def inst_w_def)
  have a: "fold (issue_lane cfg_one) [0..<0]
             (False, pipe_waiting\<lparr>ID_latch := sort_ID cfg_one (ID_latch pipe_waiting)\<rparr>)
           = (False, pipe_waiting)"
    by (simp add: sorted)
  have b: "0 < PIPE_WIDTH cfg_one"
    by (simp add: cfg_one_def)
  have c: "valid_latch (ID_latch pipe_waiting 0)" "\<not> rob_check_space (rob pipe_waiting)"
    by (simp_all add: pipe_waiting_def rob_check_space_def rob_full1_def)
  have d: "False \<or> (valid_latch (ID_latch pipe_waiting 0) \<and> \<not> rob_check_space (rob pipe_waiting))"
    using c by simp
  show ?thesis
    using issue_stall_monotone [OF a b d]
    by (simp add: b c) (simp add: cfg_one_def stall_from_def pipe_waiting_def)
qed



section \<open>Loop rules\<close>

text \<open>
  An invariant indexed by the lanes already visited is carried through a counted loop.
\<close>

lemma for_lanes_rule:
  assumes "I xs p"
    and "\<And>ys i q. I ys q \<Longrightarrow> \<exists>q'. body i q = Some q' \<and> I (ys @ [i]) q'"
  shows "\<exists>p'. for_lanes body ls p = Some p' \<and> I (xs @ ls) p'"
  using assms(1)
proof (induction ls arbitrary: xs p)
  case Nil
  then show ?case by simp
next
  case (Cons i ls)
  from assms(2) [OF Cons.prems] obtain q' where q: "body i p = Some q'" "I (xs @ [i]) q'"
    by blast
  from Cons.IH [OF q(2)] show ?case
    by (simp add: q(1))
qed

lemma fold_rule:
  assumes "I xs p"
    and "\<And>ys i q. I ys q \<Longrightarrow> I (ys @ [i]) (f i q)"
  shows "I (xs @ ls) (fold f ls p)"
  using assms(1)
proof (induction ls arbitrary: xs p)
  case Nil
  then show ?case by simp
next
  case (Cons i ls)
  from Cons.IH [OF assms(2) [OF Cons.prems]] show ?case by simp
qed


section \<open>The ring of ROB slots\<close>

lemma mod_pred: "0 < (n::int) \<Longrightarrow> x mod n \<noteq> 0 \<Longrightarrow> (x - 1) mod n = x mod n - 1"
  by (smt (verit) mod_pos_pos_trivial pos_mod_bound pos_mod_sign mod_diff_left_eq)

lemma ring_next:
  assumes "0 < (n::int)" "0 \<le> i" "i < n" "0 \<le> t" "t < n"
  shows "(i + 1) mod n \<noteq> t \<Longrightarrow> Suc (ring_dist n ((i + 1) mod n) t) = ring_dist n i t"
    and "(i + 1) mod n = t \<Longrightarrow> ring_dist n i t = 0"
    and "0 \<le> (i + 1) mod n" and "(i + 1) mod n < n"
proof -
  show "0 \<le> (i + 1) mod n" "(i + 1) mod n < n" using assms by simp_all
  have eq: "(t - (i + 1) mod n - 1) mod n = (t - i - 1 - 1) mod n"
    by (metis diff_diff_eq mod_diff_right_eq mod_diff_left_eq)
  {
    assume ne: "(i + 1) mod n \<noteq> t"
    have "(t - i - 1) mod n \<noteq> 0"
    proof
      assume "(t - i - 1) mod n = 0"
      then have "(t - (i + 1)) mod n = 0" by (simp add: algebra_simps)
      then have "t mod n = (i + 1) mod n"
        by (metis mod_eq_dvd_iff mod_0_imp_dvd)
      with assms ne show False by simp
    qed
    then have "(t - i - 1 - 1) mod n = (t - i - 1) mod n - 1"
      using assms(1) by (rule mod_pred [rotated])
    moreover have "0 \<le> (t - i - 1 - 1) mod n" using assms(1) by simp
    ultimately show "Suc (ring_dist n ((i + 1) mod n) t) = ring_dist n i t"
      unfolding ring_dist_def eq by simp
  }
  {
    assume e: "(i + 1) mod n = t"
    have "(t - i - 1) mod n = ((i + 1) mod n - (i + 1)) mod n"
      using e by (simp add: algebra_simps)
    also have "\<dots> = 0"
      by (simp add: mod_diff_left_eq)
    finally show "ring_dist n i t = 0" by (simp add: ring_dist_def)
  }
qed

lemma ring_slots_Cons:
  "0 \<le> i \<Longrightarrow> i < n \<Longrightarrow> ring_slots n i (Suc k) = i # ring_slots n ((i + 1) mod n) k"
proof -
  assume a: "0 \<le> i" "i < n"
  have "[0..<Suc k] = 0 # map Suc [0..<k]"
    by (simp add: upt_conv_Cons map_Suc_upt del: upt_Suc)
  then have "ring_slots n i (Suc k) = (i + 0) mod n # map (\<lambda>j. (i + int (Suc j)) mod n) [0..<k]"
    unfolding ring_slots_def by (simp add: comp_def del: upt_Suc)
  moreover have "(i + int (Suc j)) mod n = ((i + 1) mod n + int j) mod n" for j
  proof -
    have "((i + 1) mod n + int j) mod n = ((i + 1) + int j) mod n"
      by (rule mod_add_left_eq)
    then show ?thesis by (simp add: algebra_simps)
  qed
  ultimately show ?thesis
    using a by (simp add: ring_slots_def)
qed

lemma wakeup_loop_closed:
  assumes n: "0 < NUM_ROB_ENTRIES cfg"
  shows "0 \<le> i \<Longrightarrow> i < int (NUM_ROB_ENTRIES cfg) \<Longrightarrow> 0 \<le> t \<Longrightarrow> t < int (NUM_ROB_ENTRIES cfg) \<Longrightarrow>
         ring_dist (int (NUM_ROB_ENTRIES cfg)) i t = d \<Longrightarrow>
         rob_wakeup_loop cfg tag t i r =
           Some (fold (wakeup_slot tag) (ring_slots (int (NUM_ROB_ENTRIES cfg)) i (Suc d)) r)"
proof (induction d arbitrary: i r)
  case 0
  let ?n = "int (NUM_ROB_ENTRIES cfg)"
  have "(i + 1) mod ?n = t"
  proof (rule ccontr)
    assume "(i + 1) mod ?n \<noteq> t"
    then have "Suc (ring_dist ?n ((i + 1) mod ?n) t) = ring_dist ?n i t"
      using ring_next(1) [of ?n i t] n 0 by simp
    with 0 show False by simp
  qed
  then show ?case
    using 0 by (subst rob_wakeup_loop.simps) (simp add: ring_slots_def)
next
  case (Suc d)
  let ?n = "int (NUM_ROB_ENTRIES cfg)"
  have pos: "0 < ?n" using n by simp
  have ne: "(i + 1) mod ?n \<noteq> t"
    using ring_next(2) [OF pos Suc.prems(1-4)] Suc.prems(5) by auto
  have d: "ring_dist ?n ((i + 1) mod ?n) t = d"
    using ring_next(1) [OF pos Suc.prems(1-4) ne] Suc.prems(5) by simp
  have "rob_wakeup_loop cfg tag t ((i + 1) mod ?n) (wakeup_slot tag i r) =
          Some (fold (wakeup_slot tag) (ring_slots ?n ((i + 1) mod ?n) (Suc d)) (wakeup_slot tag i r))"
    using Suc.IH [OF ring_next(3,4) [OF pos Suc.prems(1-4)] Suc.prems(3,4) d] .
  then show ?case
    using ne Suc.prems(1,2)
    by (subst rob_wakeup_loop.simps) (simp add: ring_slots_Cons [of i ?n "Suc d"])
qed

lemma wakeup_slot_eq:
  "wakeup_slot tag i r = r\<lparr>entries := (entries r)(i := wake tag (entries r i))\<rparr>"
  by (cases "valid (entries r i)")
     (auto simp: wakeup_slot_def wake_def Let_def)

lemma wake_idem: "wake tag (wake tag e) = wake tag e"
  by (simp add: wake_def)

lemma fold_wakeup_slots:
  "fold (wakeup_slot tag) xs r =
     r\<lparr>entries := (\<lambda>k. if k \<in> set xs then wake tag (entries r k) else entries r k)\<rparr>"
proof (induction xs arbitrary: r)
  case Nil
  then show ?case by simp
next
  case (Cons x xs)
  show ?case
    by (simp add: Cons.IH wakeup_slot_eq [of tag x r] cong: if_cong)
       (auto simp: fun_eq_iff wake_idem)
qed

lemma rob_wakeup_eq:
  assumes "0 < NUM_ROB_ENTRIES cfg" "rob_ptrs_ok cfg r"
  shows "rob_wakeup cfg r tag =
           Some (r\<lparr>entries := (\<lambda>k. if k \<in> set (window_slots cfg r)
                                      then wake tag (entries r k) else entries r k)\<rparr>)"
  using assms wakeup_loop_closed [OF assms(1), of "head_ptr r" "tail_ptr r" _ tag r]
  by (simp add: rob_wakeup_def rob_ptrs_ok_def window_slots_def fold_wakeup_slots)

lemma ring_dist_less: "0 < n \<Longrightarrow> int (ring_dist n i t) < n"
  by (simp add: ring_dist_def)

lemma ring_slots_inj:
  assumes "0 < (n::int)" "int j1 < n" "int j2 < n" "(i + int j1) mod n = (i + int j2) mod n"
  shows "j1 = j2"
proof -
  have "((i + int j1) - i) mod n = ((i + int j2) - i) mod n"
    using assms(4) by (metis mod_diff_cong)
  then have "int j1 mod n = int j2 mod n" by simp
  then show ?thesis using assms(2,3) by simp
qed

lemma ring_end:
  assumes "0 < (n::int)" "0 \<le> t" "t < n"
  shows "(i + int (Suc (ring_dist n i t))) mod n = t"
proof -
  have "(i + int (Suc (ring_dist n i t))) mod n = ((i + 1) + (t - i - 1) mod n) mod n"
    using assms(1) by (simp add: ring_dist_def algebra_simps)
  also have "\<dots> = ((i + 1) + (t - i - 1)) mod n"
    by (rule mod_add_right_eq)
  also have "\<dots> = t" using assms by simp
  finally show ?thesis .
qed

lemma ring_slots_distinct:
  assumes "0 < (n::int)" "int k \<le> n"
  shows "distinct (ring_slots n i k)"
  unfolding ring_slots_def distinct_map
proof (intro conjI inj_onI)
  show "distinct [0..<k]" by simp
  fix x y assume "x \<in> set [0..<k]" "y \<in> set [0..<k]" "(i + int x) mod n = (i + int y) mod n"
  then show "x = y"
    using ring_slots_inj [OF assms(1), of x y i] assms(2) by simp
qed

lemma ring_slots_range:
  assumes "0 < (n::int)"
  shows "set (ring_slots n i k) \<subseteq> {0..<n}"
  using assms by (auto simp: ring_slots_def)

lemma ring_slots_all:
  assumes "0 < (n::int)"
  shows "set (ring_slots n i (nat n)) = {0..<n}"
proof (rule card_subset_eq)
  show "finite {0..<n}" by simp
  show "set (ring_slots n i (nat n)) \<subseteq> {0..<n}" by (rule ring_slots_range [OF assms])
  have "card (set (ring_slots n i (nat n))) = length (ring_slots n i (nat n))"
    using assms by (intro distinct_card ring_slots_distinct) simp_all
  then show "card (set (ring_slots n i (nat n))) = card {0..<n}"
    by (simp add: ring_slots_def)
qed

lemma ring_dist_self: "0 < n \<Longrightarrow> Suc (ring_dist n i i) = nat n"
proof -
  assume "0 < n"
  then have "(- 1) mod n = n - 1"
    by (smt (verit) mod_pos_pos_trivial mod_add_self2)
  with \<open>0 < n\<close> show ?thesis by (simp add: ring_dist_def)
qed


section \<open>Wakeup and writeback\<close>

lemma rob_wakeup_woken:
  "0 < NUM_ROB_ENTRIES cfg \<Longrightarrow> rob_ptrs_ok cfg r \<Longrightarrow>
   rob_wakeup cfg r tag = Some (rob_woken cfg r tag)"
  by (simp add: rob_wakeup_eq rob_woken_def)

lemma woken_le_refl: "woken_le r r"
  by (simp add: woken_le_def)

lemma woken_le_trans: "woken_le a b \<Longrightarrow> woken_le b c \<Longrightarrow> woken_le a c"
  by (simp add: woken_le_def)

lemma window_slots_cong:
  "head_ptr r' = head_ptr r \<Longrightarrow> tail_ptr r' = tail_ptr r \<Longrightarrow>
   window_slots cfg r' = window_slots cfg r"
  by (simp add: window_slots_def)

lemma woken_le_woken: "woken_le r (rob_woken cfg r tag)"
  by (simp add: woken_le_def rob_woken_def wake_def)

lemma woken_le_mark_ready: "woken_le r (rob_mark_ready r i)"
  by (simp add: woken_le_def rob_mark_ready_def)

lemma writeback_lane_eq:
  assumes "0 < NUM_ROB_ENTRIES cfg" "rob_ptrs_ok cfg (rob p)"
  shows "writeback_lane cfg i p =
     Some (if stall (EX_latch p i) = False \<and> valid_latch (EX_latch p i) = True
           then p\<lparr>rob := rob_mark_ready (rob_woken cfg (rob p) (dr_tag (inst_latch (EX_latch p i))))
                           (inst_latch (EX_latch p i)),
                  EX_latch := (EX_latch p)(i := (EX_latch p i)\<lparr>valid_latch := False\<rparr>)\<rparr>
           else p)"
  using assms by (simp add: writeback_lane_def rob_wakeup_woken)

lemma wb_inv_step:
  assumes n: "0 < NUM_ROB_ENTRIES cfg" and ok: "rob_ptrs_ok cfg (rob p)"
    and win: "\<forall>k. valid (entries (rob p) k) \<longrightarrow> k \<in> set (window_slots cfg (rob p))"
    and inv: "wb_inv cfg p ys q"
  shows "\<exists>q'. writeback_lane cfg i q = Some q' \<and> wb_inv cfg p (ys @ [i]) q'"
proof -
  from inv have le: "woken_le (rob p) (rob q)" by (simp add: wb_inv_def)
  then have ptr: "head_ptr (rob q) = head_ptr (rob p)" "tail_ptr (rob q) = tail_ptr (rob p)"
    by (simp_all add: woken_le_def)
  have okq: "rob_ptrs_ok cfg (rob q)"
    using ok ptr by (simp add: rob_ptrs_ok_def)
  have winq: "window_slots cfg (rob q) = window_slots cfg (rob p)"
    using ptr by (rule window_slots_cong)
  show ?thesis
  proof (cases "stall (EX_latch q i) = False \<and> valid_latch (EX_latch q i) = True")
    case False
    then have eq: "writeback_lane cfg i q = Some q"
      by (auto simp: writeback_lane_eq [OF n okq])
    from inv have "EX_latch q i = EX_latch p i \<or> (i \<in> set ys \<and> \<not> valid_latch (EX_latch q i))"
      unfolding wb_inv_def by blast
    then have "i \<in> set ys \<or> \<not> (valid_latch (EX_latch p i) \<and> \<not> stall (EX_latch p i))"
      using False by auto
    then have "wb_inv cfg p (ys @ [i]) q"
      using inv unfolding wb_inv_def by (simp (no_asm_simp)) blast
    with eq show ?thesis by blast
  next
    case True
    let ?t = "dr_tag (inst_latch (EX_latch q i))"
    let ?r = "rob_mark_ready (rob_woken cfg (rob q) ?t) (inst_latch (EX_latch q i))"
    let ?q = "q\<lparr>rob := ?r, EX_latch := (EX_latch q)(i := (EX_latch q i)\<lparr>valid_latch := False\<rparr>)\<rparr>"
    have eq: "writeback_lane cfg i q = Some ?q"
      using True by (simp add: writeback_lane_eq [OF n okq])
    have le1: "woken_le (rob q) ?r"
      by (rule woken_le_trans [OF woken_le_woken woken_le_mark_ready])
    have le2: "woken_le (rob p) ?r"
      by (rule woken_le_trans [OF le le1])
    have new: "src1_ready (inst (entries ?r k))" if "valid (entries ?r k)"
      "src1_tag (inst (entries ?r k)) = ?t" for k
    proof -
      from that(1) le2 have "valid (entries (rob p) k)" by (simp add: woken_le_def)
      then have "k \<in> set (window_slots cfg (rob q))" using win winq by simp
      moreover from that le1 have "valid (entries (rob q) k)"
        "src1_tag (inst (entries (rob q) k)) = ?t"
        by (simp_all add: woken_le_def)
      ultimately have "src1_ready (inst (entries (rob_woken cfg (rob q) ?t) k))"
        by (simp add: rob_woken_def wake_def)
      then show ?thesis
        using woken_le_mark_ready [of "rob_woken cfg (rob q) ?t" "inst_latch (EX_latch q i)"]
        by (simp add: woken_le_def)
    qed
    have new2: "src2_ready (inst (entries ?r k))" if "valid (entries ?r k)"
      "src2_tag (inst (entries ?r k)) = ?t" for k
    proof -
      from that(1) le2 have "valid (entries (rob p) k)" by (simp add: woken_le_def)
      then have "k \<in> set (window_slots cfg (rob q))" using win winq by simp
      moreover from that le1 have "valid (entries (rob q) k)"
        "src2_tag (inst (entries (rob q) k)) = ?t"
        by (simp_all add: woken_le_def)
      ultimately have "src2_ready (inst (entries (rob_woken cfg (rob q) ?t) k))"
        by (simp add: rob_woken_def wake_def)
      then show ?thesis
        using woken_le_mark_ready [of "rob_woken cfg (rob q) ?t" "inst_latch (EX_latch q i)"]
        by (simp add: woken_le_def)
    qed
    from inv have "EX_latch q i = EX_latch p i \<or> (i \<in> set ys \<and> \<not> valid_latch (EX_latch q i))"
      unfolding wb_inv_def by blast
    then have same: "EX_latch q i = EX_latch p i"
      using True by auto
    have old: "(src1_tag (inst (entries ?r k)) = dr_tag (inst_latch (EX_latch p j))
                  \<longrightarrow> src1_ready (inst (entries ?r k))) \<and>
               (src2_tag (inst (entries ?r k)) = dr_tag (inst_latch (EX_latch p j))
                  \<longrightarrow> src2_ready (inst (entries ?r k)))"
      if "j \<in> set ys" "valid_latch (EX_latch p j)" "\<not> stall (EX_latch p j)"
        "valid (entries ?r k)" for j k
    proof -
      from that(4) le1 have v: "valid (entries (rob q) k)" by (simp add: woken_le_def)
      from inv that(1-3) v have
        "(src1_tag (inst (entries (rob q) k)) = dr_tag (inst_latch (EX_latch p j))
            \<longrightarrow> src1_ready (inst (entries (rob q) k))) \<and>
         (src2_tag (inst (entries (rob q) k)) = dr_tag (inst_latch (EX_latch p j))
            \<longrightarrow> src2_ready (inst (entries (rob q) k)))"
        unfolding wb_inv_def by blast
      with le1 show ?thesis
        unfolding woken_le_def by metis
    qed
    have "wb_inv cfg p (ys @ [i]) ?q"
      unfolding wb_inv_def
    proof (intro conjI allI impI)
      show "woken_le (rob p) (rob ?q)" using le2 by simp
    next
      fix j
      show "EX_latch ?q j = EX_latch p j \<or> (j \<in> set (ys @ [i]) \<and> \<not> valid_latch (EX_latch ?q j))"
        using inv by (auto simp: wb_inv_def)
    next
      fix j k
      assume a: "j \<in> set (ys @ [i]) \<and> valid_latch (EX_latch p j) \<and> \<not> stall (EX_latch p j) \<and>
            valid (entries (rob ?q) k)"
        and b: "src1_tag (inst (entries (rob ?q) k)) = dr_tag (inst_latch (EX_latch p j))"
      show "src1_ready (inst (entries (rob ?q) k))"
      proof (cases "j \<in> set ys")
        case True
        with old [of j k] a b show ?thesis by simp
      next
        case False
        with a have "j = i" by simp
        with new [of k] a b same show ?thesis by simp
      qed
    next
      fix j k
      assume a: "j \<in> set (ys @ [i]) \<and> valid_latch (EX_latch p j) \<and> \<not> stall (EX_latch p j) \<and>
            valid (entries (rob ?q) k)"
        and b: "src2_tag (inst (entries (rob ?q) k)) = dr_tag (inst_latch (EX_latch p j))"
      show "src2_ready (inst (entries (rob ?q) k))"
      proof (cases "j \<in> set ys")
        case True
        with old [of j k] a b show ?thesis by simp
      next
        case False
        with a have "j = i" by simp
        with new2 [of k] a b same show ?thesis by simp
      qed
    qed
    with eq show ?thesis by blast
  qed
qed

lemma writeback_wakes:
  assumes n: "0 < NUM_ROB_ENTRIES cfg" and ok: "rob_ptrs_ok cfg (rob p)"
    and win: "\<forall>k. valid (entries (rob p) k) \<longrightarrow> k \<in> set (window_slots cfg (rob p))"
  shows "\<exists>p'. pipe_cycle_writeback cfg p = Some p' \<and> wb_inv cfg p [0..<MAX_WRITEBACKS] p'"
proof -
  have "wb_inv cfg p [] p"
    by (simp add: wb_inv_def woken_le_refl)
  from for_lanes_rule [where I = "wb_inv cfg p" and body = "writeback_lane cfg"
      and ls = "[0..<MAX_WRITEBACKS]", OF this wb_inv_step [OF n ok win]]
  show ?thesis
    by (simp add: pipe_cycle_writeback_def)
qed

lemma writeback_idle:
  "\<forall>i. \<not> valid_latch (EX_latch p i) \<Longrightarrow> pipe_cycle_writeback cfg p = Some p"
proof -
  assume a: "\<forall>i. \<not> valid_latch (EX_latch p i)"
  have "for_lanes (writeback_lane cfg) ls p = Some p" for ls
    by (induction ls) (simp_all add: writeback_lane_def a)
  then show ?thesis by (simp add: pipe_cycle_writeback_def)
qed

text \<open>
  C6. For a ROB whose pointers are in range, \<^verbatim>\<open>rob_wakeup\<close> returns, and what it returns
  is the ROB in which every valid slot from \<^verbatim>\<open>head_ptr\<close> (inclusive) to \<^verbatim>\<open>tail_ptr\<close>
  (exclusive, modulo the capacity) has \<^verbatim>\<open>src1_ready\<close> set if its \<^verbatim>\<open>src1_tag\<close> is the
  tag, and \<^verbatim>\<open>src2_ready\<close> likewise. The slots visited are pairwise distinct, they end
  just before \<^verbatim>\<open>tail_ptr\<close>, and they are all the slots of the buffer when
  \<^verbatim>\<open>head_ptr = tail_ptr\<close>. Consequently, when the valid entries lie between head and
  tail, the writeback stage returns and leaves no valid ROB entry with a source tag equal
  to the destination tag of a producer it processed and that source's flag unset.
\<close>

theorem wakeup_totality:
  assumes "0 < NUM_ROB_ENTRIES cfg" and "rob_ptrs_ok cfg (rob p)"
    and "\<forall>k. valid (entries (rob p) k) \<longrightarrow> k \<in> set (window_slots cfg (rob p))"
  shows "rob_wakeup cfg (rob p) tag = Some (rob_woken cfg (rob p) tag) \<and>
         distinct (window_slots cfg (rob p)) \<and>
         (head_ptr (rob p) + int (length (window_slots cfg (rob p)))) mod int (NUM_ROB_ENTRIES cfg)
           = tail_ptr (rob p) \<and>
         (head_ptr (rob p) = tail_ptr (rob p) \<longrightarrow>
            set (window_slots cfg (rob p)) = {0..<int (NUM_ROB_ENTRIES cfg)}) \<and>
         (\<exists>p'. pipe_cycle_writeback cfg p = Some p' \<and> woken_le (rob p) (rob p') \<and>
            (\<forall>i k. i < MAX_WRITEBACKS \<and> valid_latch (EX_latch p i) \<and> \<not> stall (EX_latch p i) \<and>
                   valid (entries (rob p') k) \<longrightarrow>
               (src1_tag (inst (entries (rob p') k)) = dr_tag (inst_latch (EX_latch p i))
                  \<longrightarrow> src1_ready (inst (entries (rob p') k))) \<and>
               (src2_tag (inst (entries (rob p') k)) = dr_tag (inst_latch (EX_latch p i))
                  \<longrightarrow> src2_ready (inst (entries (rob p') k)))))"
proof -
  let ?n = "int (NUM_ROB_ENTRIES cfg)"
  have pos: "0 < ?n" using assms(1) by simp
  have a: "rob_wakeup cfg (rob p) tag = Some (rob_woken cfg (rob p) tag)"
    by (rule rob_wakeup_woken [OF assms(1,2)])
  have b: "distinct (window_slots cfg (rob p))"
    unfolding window_slots_def
    using ring_dist_less [OF pos, of "head_ptr (rob p)" "tail_ptr (rob p)"]
    by (intro ring_slots_distinct [OF pos]) simp
  have c: "(head_ptr (rob p) + int (length (window_slots cfg (rob p)))) mod ?n = tail_ptr (rob p)"
    using ring_end [OF pos, of "tail_ptr (rob p)" "head_ptr (rob p)"] assms(2)
    by (simp add: window_slots_def ring_slots_def rob_ptrs_ok_def)
  have d: "set (window_slots cfg (rob p)) = {0..<?n}" if "head_ptr (rob p) = tail_ptr (rob p)"
    using that ring_slots_all [OF pos, of "tail_ptr (rob p)"]
    by (simp add: window_slots_def ring_dist_self [OF pos])
  from writeback_wakes [OF assms] obtain p'
    where p': "pipe_cycle_writeback cfg p = Some p'" "wb_inv cfg p [0..<MAX_WRITEBACKS] p'"
    by blast
  have e: "woken_le (rob p) (rob p')"
    using p'(2) by (simp add: wb_inv_def)
  have f: "(src1_tag (inst (entries (rob p') k)) = dr_tag (inst_latch (EX_latch p i))
              \<longrightarrow> src1_ready (inst (entries (rob p') k))) \<and>
           (src2_tag (inst (entries (rob p') k)) = dr_tag (inst_latch (EX_latch p i))
              \<longrightarrow> src2_ready (inst (entries (rob p') k)))"
    if "i < MAX_WRITEBACKS" "valid_latch (EX_latch p i)" "\<not> stall (EX_latch p i)"
      "valid (entries (rob p') k)" for i k
  proof -
    have "i \<in> set [0..<MAX_WRITEBACKS]" using that(1) by simp
    with p'(2) that(2-4) show ?thesis
      unfolding wb_inv_def by blast
  qed
  show ?thesis
    using a b c d p'(1) e f by blast
qed

theorem wakeup_totality_witness:
  "0 < NUM_ROB_ENTRIES cfg_raw \<and> rob_ptrs_ok cfg_raw (rob pipe_wb) \<and>
   window_slots cfg_raw (rob pipe_wb) = [0, 1] \<and>
   \<not> src1_ready (inst (entries (rob pipe_wb) 1)) \<and>
   (\<exists>p'. pipe_cycle_writeback cfg_raw pipe_wb = Some p' \<and>
         valid (entries (rob p') 1) \<and> src1_ready (inst (entries (rob p') 1)))"
proof -
  have n: "0 < NUM_ROB_ENTRIES cfg_raw"
    by (simp add: cfg_raw_def)
  have ok: "rob_ptrs_ok cfg_raw (rob pipe_wb)"
    by (simp add: rob_ptrs_ok_def pipe_wb_def cfg_raw_def)
  have w: "window_slots cfg_raw (rob pipe_wb) = [0, 1]"
    by (simp add: window_slots_def ring_slots_def ring_dist_def pipe_wb_def cfg_raw_def
        upt_rec)
  have win: "\<forall>k. valid (entries (rob pipe_wb) k) \<longrightarrow> k \<in> set (window_slots cfg_raw (rob pipe_wb))"
    unfolding w by (simp add: pipe_wb_def rob_init_def)
  have pre: "\<not> src1_ready (inst (entries (rob pipe_wb) 1))"
    "valid (entries (rob pipe_wb) 1)"
    "src1_tag (inst (entries (rob pipe_wb) 1)) = dr_tag (inst_latch (EX_latch pipe_wb 0))"
    "valid_latch (EX_latch pipe_wb 0)" "\<not> stall (EX_latch pipe_wb 0)"
    by (simp_all add: pipe_wb_def inst_r_def inst_w_def)
  from wakeup_totality [OF n ok win, of 0] obtain p'
    where p': "pipe_cycle_writeback cfg_raw pipe_wb = Some p'"
      "woken_le (rob pipe_wb) (rob p')"
      "\<forall>i k. i < MAX_WRITEBACKS \<and> valid_latch (EX_latch pipe_wb i) \<and> \<not> stall (EX_latch pipe_wb i) \<and>
             valid (entries (rob p') k) \<longrightarrow>
         (src1_tag (inst (entries (rob p') k)) = dr_tag (inst_latch (EX_latch pipe_wb i))
            \<longrightarrow> src1_ready (inst (entries (rob p') k))) \<and>
         (src2_tag (inst (entries (rob p') k)) = dr_tag (inst_latch (EX_latch pipe_wb i))
            \<longrightarrow> src2_ready (inst (entries (rob p') k)))"
    by blast
  have v: "valid (entries (rob p') 1)"
    "src1_tag (inst (entries (rob p') 1)) = dr_tag (inst_latch (EX_latch pipe_wb 0))"
    using p'(2) pre(2,3) by (simp_all add: woken_le_def)
  have "(0::nat) < MAX_WRITEBACKS" by (simp add: MAX_WRITEBACKS_def)
  with p'(3) pre(4,5) v have "src1_ready (inst (entries (rob p') 1))"
    by blast
  with n ok w pre(1) p'(1) v(1) show ?thesis by blast
qed


section \<open>Writeback, execute and schedule leave the front of the pipeline alone\<close>

lemma rob_skel_refl: "rob_skel r r"
  by (simp add: rob_skel_def)

lemma rob_skel_trans: "rob_skel a b \<Longrightarrow> rob_skel b c \<Longrightarrow> rob_skel a c"
  by (simp add: rob_skel_def)

lemma backend_rel_refl: "backend_rel p p"
  by (simp add: backend_rel_def rob_skel_refl)

lemma backend_rel_trans: "backend_rel a b \<Longrightarrow> backend_rel b c \<Longrightarrow> backend_rel a c"
  unfolding backend_rel_def using rob_skel_trans by auto

lemma rob_skel_ptrs: "rob_skel r r' \<Longrightarrow> rob_ptrs_ok cfg r \<Longrightarrow> rob_ptrs_ok cfg r'"
  by (simp add: rob_skel_def rob_ptrs_ok_def)

lemma backend_rel_ptrs: "backend_rel p p' \<Longrightarrow> rob_ptrs_ok cfg (rob p) \<Longrightarrow> rob_ptrs_ok cfg (rob p')"
  by (auto simp: backend_rel_def intro: rob_skel_ptrs)

lemma rob_skel_mark_ready: "rob_skel r (rob_mark_ready r i)"
  by (simp add: rob_skel_def rob_mark_ready_def)

lemma rob_skel_mark_exec: "rob_skel r (rob_mark_exec r i)"
  by (simp add: rob_skel_def rob_mark_exec_def)

lemma rob_skel_woken: "rob_skel r (rob_woken cfg r tag)"
  by (simp add: rob_skel_def rob_woken_def wake_def)

lemma writeback_lane_backend:
  assumes "0 < NUM_ROB_ENTRIES cfg" "rob_ptrs_ok cfg (rob p)"
  shows "\<exists>p'. writeback_lane cfg i p = Some p' \<and> backend_rel p p'"
proof -
  have "rob_skel (rob p) (rob_mark_ready (rob_woken cfg (rob p) t) x)" for t x
    by (rule rob_skel_trans [OF rob_skel_woken rob_skel_mark_ready])
  then show ?thesis
    by (simp add: writeback_lane_eq [OF assms] backend_rel_def rob_skel_refl)
qed

lemma writeback_backend:
  assumes n: "0 < NUM_ROB_ENTRIES cfg" and ok: "rob_ptrs_ok cfg (rob p)"
  shows "\<exists>p'. pipe_cycle_writeback cfg p = Some p' \<and> backend_rel p p'"
proof -
  have step: "\<exists>q'. writeback_lane cfg i q = Some q' \<and> backend_rel p q'"
    if "backend_rel p q" for i q and ys :: "nat list"
  proof -
    from that ok have "rob_ptrs_ok cfg (rob q)" by (rule backend_rel_ptrs)
    from writeback_lane_backend [OF n this, of i] that show ?thesis
      using backend_rel_trans by blast
  qed
  from for_lanes_rule [where I = "\<lambda>ys. backend_rel p" and body = "writeback_lane cfg"
      and ls = "[0..<MAX_WRITEBACKS]" and xs = "[]", OF backend_rel_refl step]
  show ?thesis
    by (simp add: pipe_cycle_writeback_def)
qed

lemma sched_send_backend: "backend_rel p (sched_send i j p)"
  by (simp add: sched_send_def backend_rel_def rob_skel_mark_exec Let_def)

lemma sched_hold_backend: "backend_rel p (sched_hold i p)"
  by (simp add: sched_hold_def backend_rel_def rob_skel_refl)

lemma sched_scan_in_backend:
  assumes n: "0 < NUM_ROB_ENTRIES cfg"
  shows "0 \<le> j \<Longrightarrow> j < int (NUM_ROB_ENTRIES cfg) \<Longrightarrow> rob_ptrs_ok cfg (rob p) \<Longrightarrow>
         ring_dist (int (NUM_ROB_ENTRIES cfg)) j (tail_ptr (rob p)) = d \<Longrightarrow>
         \<exists>p'. sched_scan_in cfg i j p = Some p' \<and> backend_rel p p'"
proof (induction d arbitrary: j)
  case 0
  let ?n = "int (NUM_ROB_ENTRIES cfg)"
  have t: "0 \<le> tail_ptr (rob p)" "tail_ptr (rob p) < ?n"
    using 0 by (simp_all add: rob_ptrs_ok_def)
  have "(j + 1) mod ?n = tail_ptr (rob p)"
  proof (rule ccontr)
    assume "(j + 1) mod ?n \<noteq> tail_ptr (rob p)"
    then have "Suc (ring_dist ?n ((j + 1) mod ?n) (tail_ptr (rob p))) = ring_dist ?n j (tail_ptr (rob p))"
      using ring_next(1) [of ?n j "tail_ptr (rob p)"] n 0 t by simp
    with 0 show False by simp
  qed
  then show ?case
    by (subst sched_scan_in.simps)
       (simp add: sched_send_backend sched_hold_backend backend_rel_refl)
next
  case (Suc d)
  let ?n = "int (NUM_ROB_ENTRIES cfg)"
  have pos: "0 < ?n" using n by simp
  have t: "0 \<le> tail_ptr (rob p)" "tail_ptr (rob p) < ?n"
    using Suc.prems by (simp_all add: rob_ptrs_ok_def)
  have ne: "(j + 1) mod ?n \<noteq> tail_ptr (rob p)"
    using ring_next(2) [OF pos Suc.prems(1,2) t] Suc.prems(4) by auto
  have d: "ring_dist ?n ((j + 1) mod ?n) (tail_ptr (rob p)) = d"
    using ring_next(1) [OF pos Suc.prems(1,2) t ne] Suc.prems(4) by simp
  from Suc.IH [OF ring_next(3,4) [OF pos Suc.prems(1,2) t] Suc.prems(3) d]
  obtain p' where "sched_scan_in cfg i ((j + 1) mod ?n) p = Some p'" "backend_rel p p'"
    by blast
  then show ?case
    using ne
    by (subst sched_scan_in.simps)
       (simp add: sched_send_backend sched_hold_backend)
qed

lemma sched_scan_ooo_backend:
  assumes n: "0 < NUM_ROB_ENTRIES cfg"
  shows "0 \<le> j \<Longrightarrow> j < int (NUM_ROB_ENTRIES cfg) \<Longrightarrow> rob_ptrs_ok cfg (rob p) \<Longrightarrow>
         ring_dist (int (NUM_ROB_ENTRIES cfg)) j (tail_ptr (rob p)) = d \<Longrightarrow>
         \<exists>p'. sched_scan_ooo cfg i j p = Some p' \<and> backend_rel p p'"
proof (induction d arbitrary: j p)
  case 0
  let ?n = "int (NUM_ROB_ENTRIES cfg)"
  have t: "0 \<le> tail_ptr (rob p)" "tail_ptr (rob p) < ?n"
    using 0 by (simp_all add: rob_ptrs_ok_def)
  have "(j + 1) mod ?n = tail_ptr (rob p)"
  proof (rule ccontr)
    assume "(j + 1) mod ?n \<noteq> tail_ptr (rob p)"
    then have "Suc (ring_dist ?n ((j + 1) mod ?n) (tail_ptr (rob p))) = ring_dist ?n j (tail_ptr (rob p))"
      using ring_next(1) [of ?n j "tail_ptr (rob p)"] n 0 t by simp
    with 0 show False by simp
  qed
  moreover have "tail_ptr (rob (sched_hold i p)) = tail_ptr (rob p)"
    by (simp add: sched_hold_def)
  ultimately show ?case
    by (subst sched_scan_ooo.simps)
       (simp add: sched_send_backend sched_hold_backend backend_rel_refl Let_def)
next
  case (Suc d)
  let ?n = "int (NUM_ROB_ENTRIES cfg)"
  let ?p1 = "if valid (entries (rob p) j) = True \<and> exec (entries (rob p) j) = False
             then sched_hold i p else p"
  have pos: "0 < ?n" using n by simp
  have t: "0 \<le> tail_ptr (rob p)" "tail_ptr (rob p) < ?n"
    using Suc.prems by (simp_all add: rob_ptrs_ok_def)
  have ne: "(j + 1) mod ?n \<noteq> tail_ptr (rob p)"
    using ring_next(2) [OF pos Suc.prems(1,2) t] Suc.prems(4) by auto
  have d: "ring_dist ?n ((j + 1) mod ?n) (tail_ptr (rob p)) = d"
    using ring_next(1) [OF pos Suc.prems(1,2) t ne] Suc.prems(4) by simp
  have r1: "rob ?p1 = rob p" by (simp add: sched_hold_def)
  have b1: "backend_rel p ?p1" by (simp add: sched_hold_backend backend_rel_refl)
  from Suc.IH [of "(j + 1) mod ?n" ?p1] ring_next(3,4) [OF pos Suc.prems(1,2) t] Suc.prems(3) d r1
  obtain p' where p': "sched_scan_ooo cfg i ((j + 1) mod ?n) ?p1 = Some p'" "backend_rel ?p1 p'"
    by auto
  from backend_rel_trans [OF b1 p'(2)] have "backend_rel p p'" .
  with p'(1) ne r1 show ?case
    by (subst sched_scan_ooo.simps)
       (auto simp: sched_send_backend Let_def)
qed

lemma schedule_backend:
  assumes n: "0 < NUM_ROB_ENTRIES cfg" and ok: "rob_ptrs_ok cfg (rob p)"
  shows "\<exists>p'. pipe_cycle_schedule cfg p = Some p' \<and> backend_rel p p'"
proof -
  have lanes: "\<exists>q'. for_lanes body [0..<PIPE_WIDTH cfg] q = Some q' \<and> backend_rel q q'"
    if body: "\<And>i x. rob_ptrs_ok cfg (rob x) \<Longrightarrow> \<exists>x'. body i x = Some x' \<and> backend_rel x x'"
      and q: "rob_ptrs_ok cfg (rob q)" for body q
  proof -
    have step: "\<exists>x'. body i x = Some x' \<and> backend_rel q x'"
      if "backend_rel q x" for i x and ys :: "nat list"
    proof -
      from that q have "rob_ptrs_ok cfg (rob x)" by (rule backend_rel_ptrs)
      from body [OF this, of i] that show ?thesis
        using backend_rel_trans by blast
    qed
    from for_lanes_rule [where I = "\<lambda>ys. backend_rel q" and body = body
        and ls = "[0..<PIPE_WIDTH cfg]" and xs = "[]", OF backend_rel_refl step]
    show ?thesis by simp
  qed
  have b_in: "\<exists>x'. sched_scan_in cfg i (head_ptr (rob x)) x = Some x' \<and> backend_rel x x'"
    if "rob_ptrs_ok cfg (rob x)" for i x
    using sched_scan_in_backend [OF n _ _ that refl] that by (simp add: rob_ptrs_ok_def)
  have b_ooo: "\<exists>x'. sched_scan_ooo cfg i (head_ptr (rob x)) x = Some x' \<and> backend_rel x x'"
    if "rob_ptrs_ok cfg (rob x)" for i x
    using sched_scan_ooo_backend [OF n _ _ that refl] that by (simp add: rob_ptrs_ok_def)
  show ?thesis
  proof (cases "SCHED_POLICY cfg")
    case SCHED_IN_ORDER
    with lanes [of "\<lambda>i q. sched_scan_in cfg i (head_ptr (rob q)) q" p, OF b_in ok]
    show ?thesis by (auto simp: pipe_cycle_schedule_def)
  next
    case SCHED_OUT_OF_ORDER
    with lanes [of "\<lambda>i q. sched_scan_ooo cfg i (head_ptr (rob q)) q" p, OF b_ooo ok]
    show ?thesis by (auto simp: pipe_cycle_schedule_def)
  next
    case NUM_SCHED_POLICIES
    then show ?thesis by (simp add: pipe_cycle_schedule_def backend_rel_refl)
  qed
qed

lemma exe_rel_refl: "exe_rel p p"
  by (simp add: exe_rel_def backend_rel_refl)

lemma exe_rel_trans: "exe_rel a b \<Longrightarrow> exe_rel b c \<Longrightarrow> exe_rel a c"
  unfolding exe_rel_def using backend_rel_trans by auto

lemma exe_drain_rel: "exe_rel p (snd (exe_drain cfg ls p))"
proof (induction ls arbitrary: p)
  case Nil
  then show ?case by (simp add: exe_rel_refl)
next
  case (Cons i ls)
  show ?case
  proof (cases "valid_latch (SC_latch p i)")
    case False
    then show ?thesis using Cons.IH by simp
  next
    case True
    obtain ok q where ins: "exeq_insert cfg (exeq p) (inst_latch (SC_latch p i)) = (ok, q)"
      by (cases "exeq_insert cfg (exeq p) (inst_latch (SC_latch p i))")
    show ?thesis
    proof (cases ok)
      case False
      with True ins show ?thesis
        by (simp add: exe_rel_def backend_rel_def rob_skel_refl)
    next
      case ok: True
      let ?p = "p\<lparr>exeq := q,
                 SC_latch := (SC_latch p)(i := (SC_latch p i)\<lparr>valid_latch := False\<rparr>)\<rparr>"
      have "exe_rel p ?p" by (simp add: exe_rel_def backend_rel_def rob_skel_refl)
      from exe_rel_trans [OF this Cons.IH [of ?p]] True ins ok show ?thesis
        by simp
    qed
  qed
qed

lemma exe_transfer_rel: "exe_rel p (exe_transfer i p)"
proof (induction i p rule: exe_transfer.induct)
  case (1 i p)
  show ?case
  proof (cases "i < MAX_WRITEBACKS \<and> exeq_check_done (exeq p)")
    case False
    then show ?thesis
      by (subst exe_transfer.simps) (auto simp: exe_rel_refl)
  next
    case True
    show ?thesis
    proof (cases "exeq_remove (exeq p)")
      case None
      with True show ?thesis
        by (subst exe_transfer.simps) (simp add: exe_rel_refl)
    next
      case (Some a)
      obtain e q where a: "a = (e, q)" by (cases a)
      let ?p = "p\<lparr>EX_latch := (EX_latch p)
                        (i := \<lparr>valid_latch = True, stall = False, inst_latch = e\<rparr>),
                     exeq := q\<rparr>"
      have "exe_rel p ?p" by (simp add: exe_rel_def backend_rel_def rob_skel_refl)
      from exe_rel_trans [OF this "1.IH" [OF True Some a [symmetric]]] True Some a
      show ?thesis
        by (subst exe_transfer.simps) simp
    qed
  qed
qed

lemma exe_copy_rel: "exe_rel p (fold exe_copy_lane ls p)"
proof -
  have "exe_rel q (exe_copy_lane i q)" for i q
    by (simp add: exe_copy_lane_def exe_rel_def backend_rel_def rob_skel_refl)
  then have "exe_rel p (exe_copy_lane i q)" if "exe_rel p q" for i q
    using that exe_rel_trans by blast
  from fold_rule [where I = "\<lambda>ys. exe_rel p" and f = exe_copy_lane and xs = "[]",
      OF exe_rel_refl this]
  show ?thesis by simp
qed

lemma exe_stage_rel: "exe_rel p (pipe_cycle_exe cfg p)"
proof (cases "LOAD_EXE_CYCLES cfg = 1")
  case True
  then show ?thesis by (simp add: pipe_cycle_exe_def exe_copy_rel)
next
  case False
  obtain ok q where d: "exe_drain cfg [0..<PIPE_WIDTH cfg] p = (ok, q)"
    by (cases "exe_drain cfg [0..<PIPE_WIDTH cfg] p")
  have pq: "exe_rel p q"
    using exe_drain_rel [of p cfg "[0..<PIPE_WIDTH cfg]"] d by simp
  show ?thesis
  proof (cases ok)
    case False
    with \<open>LOAD_EXE_CYCLES cfg \<noteq> 1\<close> d pq show ?thesis
      by (simp add: pipe_cycle_exe_def)
  next
    case True
    have "exe_rel q (q\<lparr>exeq := exeq_cycle (exeq q)\<rparr>)"
      by (simp add: exe_rel_def backend_rel_def rob_skel_refl)
    from exe_rel_trans [OF pq exe_rel_trans [OF this exe_transfer_rel]]
    show ?thesis
      using \<open>LOAD_EXE_CYCLES cfg \<noteq> 1\<close> d True by (simp add: pipe_cycle_exe_def)
  qed
qed

lemma exe_backend: "backend_rel p (pipe_cycle_exe cfg p)"
  using exe_stage_rel [of p cfg] by (simp add: exe_rel_def)

lemma rob_exe: "rob (pipe_cycle_exe cfg p) = rob p"
  using exe_stage_rel [of p cfg] by (simp add: exe_rel_def)

lemma exe_drain_backend: "backend_rel p (snd (exe_drain cfg ls p))"
  using exe_drain_rel [of p cfg ls] by (simp add: exe_rel_def)

lemma exe_drain_append:
  "exe_drain cfg (xs @ ys) p =
     (case exe_drain cfg xs p of (False, q) \<Rightarrow> (False, q) | (True, q) \<Rightarrow> exe_drain cfg ys q)"
  by (induction xs arbitrary: p) (auto split: prod.splits bool.splits)

lemma halt_issue: "halt (pipe_cycle_issue cfg p) = halt p"
proof -
  have "halt (snd (issue_lane cfg i s)) = halt (snd s)" for i s
    by (cases s)
       (auto simp: issue_lane_def issue_insert_def Let_def split: prod.splits)
  then have "halt (snd (issue_lane cfg i s)) = halt p" if "halt (snd s) = halt p" for i s
    using that by simp
  from fold_rule [where I = "\<lambda>ys s. halt (snd s) = halt p" and f = "issue_lane cfg"
      and xs = "[]" and p = "(False, p\<lparr>ID_latch := sort_ID cfg (ID_latch p)\<rparr>)", OF _ this]
  show ?thesis by (simp add: pipe_cycle_issue_def)
qed

lemma halt_decode: "halt (pipe_cycle_decode cfg p) = halt p"
proof -
  have "halt (decode_lane cfg i q) = halt p" if "halt q = halt p" for i q
    using that by (simp add: decode_lane_def split: option.splits)
  from fold_rule [where I = "\<lambda>ys q. halt q = halt p" and f = "decode_lane cfg"
      and xs = "[]" and p = p, OF _ this]
  show ?thesis by (simp add: pipe_cycle_decode_def)
qed

lemma halt_fetch: "halt p \<Longrightarrow> halt (pipe_cycle_fetch cfg p)"
proof -
  assume h: "halt p"
  have "halt (fetch_lane cfg i q)" if "halt q" for i q
    using that
    by (simp add: fetch_lane_def pipe_fetch_inst_def fetch_fail_def Let_def split: list.splits)
  from fold_rule [where I = "\<lambda>ys q. halt q" and f = "fetch_lane cfg"
      and xs = "[]" and p = p, OF h this]
  show ?thesis by (simp add: pipe_cycle_fetch_def)
qed

text \<open>
  C8. With \<^verbatim>\<open>LOAD_EXE_CYCLES > 1\<close>, let the first loop of the execute stage reach lane
  \<open>i\<close> in pipeline \<open>q\<close> with a valid SC slot while the execution queue is full. Then the
  execute stage ends in \<open>q\<close> with the halt flag set and nothing else done: the remaining
  SC slots are not drained, the queue is not cycled and nothing is moved to the EX
  latches. The cycle completes with the halt flag still set, and the main loop stops
  after this cycle.
\<close>

theorem exeq_overflow_halts:
  assumes load: "1 < LOAD_EXE_CYCLES cfg" and n: "0 < NUM_ROB_ENTRIES cfg"
    and wb: "pipe_cycle_writeback cfg
               (pipe_cycle_commit cfg (p0\<lparr>stat_num_cycle := inc64 (stat_num_cycle p0)\<rparr>)) = Some p"
    and ok: "rob_ptrs_ok cfg (rob p)"
    and drain: "exe_drain cfg [0..<i] p = (True, q)"
    and i: "i < PIPE_WIDTH cfg"
    and v: "valid_latch (SC_latch q i)"
    and full: "MAX_WRITEBACKS \<le> length (exeq q)"
  shows "pipe_cycle_exe cfg p = q\<lparr>halt := True\<rparr> \<and>
         (\<exists>p'. pipe_cycle cfg p0 = Some p' \<and> halt p' \<and> run cfg p' = Some p' \<and>
               (\<not> halt p0 \<longrightarrow> run cfg p0 = Some p'))"
proof -
  obtain m where w: "PIPE_WIDTH cfg = Suc i + m"
    using i less_iff_Suc_add by auto
  have "[0..<Suc i + m] = [0..<i] @ [i..<Suc i + m]"
    using upt_add_eq_append [of 0 i "Suc m"] by simp
  also have "[i..<Suc i + m] = i # [Suc i..<Suc i + m]"
    by (simp add: upt_conv_Cons)
  finally have split: "[0..<PIPE_WIDTH cfg] = [0..<i] @ i # [Suc i..<Suc i + m]"
    by (simp add: w)
  have "exe_drain cfg [0..<PIPE_WIDTH cfg] p = (False, q\<lparr>exeq := exeq q, halt := True\<rparr>)"
    unfolding split exe_drain_append using drain v full
    by (simp add: exeq_insert_def)
  then have exe: "pipe_cycle_exe cfg p = q\<lparr>halt := True\<rparr>"
    using load by (simp add: pipe_cycle_exe_def)
  have "backend_rel p q"
    using exe_drain_backend [of p cfg "[0..<i]"] drain by simp
  then have "rob_ptrs_ok cfg (rob (q\<lparr>halt := True\<rparr>))"
    using backend_rel_ptrs [OF _ ok, of q] by simp
  from schedule_backend [OF n this] obtain p4
    where p4: "pipe_cycle_schedule cfg (q\<lparr>halt := True\<rparr>) = Some p4" "halt p4"
    by (auto simp: backend_rel_def)
  let ?p' = "pipe_cycle_fetch cfg (pipe_cycle_decode cfg (pipe_cycle_issue cfg p4))"
  have cyc: "pipe_cycle cfg p0 = Some ?p'"
    by (simp add: pipe_cycle_def wb exe p4(1))
  have h: "halt ?p'"
    using p4(2) by (intro halt_fetch) (simp add: halt_decode halt_issue)
  have r: "run cfg ?p' = Some ?p'"
    using h by (subst run.simps) simp
  have "run cfg p0 = Some ?p'" if "\<not> halt p0"
    using that cyc r by (subst run.simps) simp
  with exe cyc h r show ?thesis by blast
qed

theorem exeq_overflow_halts_witness:
  "1 < LOAD_EXE_CYCLES cfg_load2 \<and> valid_latch (SC_latch pipe_overflow 0) \<and>
   MAX_WRITEBACKS \<le> length (exeq pipe_overflow) \<and> \<not> halt pipe_overflow \<and>
   pipe_cycle_exe cfg_load2 (pipe_overflow\<lparr>stat_num_cycle := 1\<rparr>)
     = pipe_overflow\<lparr>stat_num_cycle := 1, halt := True\<rparr> \<and>
   (\<exists>p'. pipe_cycle cfg_load2 pipe_overflow = Some p' \<and> halt p' \<and>
         run cfg_load2 pipe_overflow = Some p')"
proof -
  let ?p = "pipe_overflow\<lparr>stat_num_cycle := 1\<rparr>"
  have load: "1 < LOAD_EXE_CYCLES cfg_load2" and n: "0 < NUM_ROB_ENTRIES cfg_load2"
    and i: "0 < PIPE_WIDTH cfg_load2"
    by (simp_all add: cfg_load2_def)
  have commit: "pipe_cycle_commit cfg_load2
                  (pipe_overflow\<lparr>stat_num_cycle := inc64 (stat_num_cycle pipe_overflow)\<rparr>) = ?p"
    by (simp add: pipe_cycle_commit_def commit_lane_def rob_check_head_def rob_check_ready_def
        cfg_load2_def pipe_overflow_def pipe_init_def rob_init_def inc64_def)
  have "pipe_cycle_writeback cfg_load2 ?p = Some ?p"
    by (rule writeback_idle) (simp add: pipe_overflow_def zero_latch_def pipe_init_def)
  then have wb: "pipe_cycle_writeback cfg_load2
                  (pipe_cycle_commit cfg_load2
                    (pipe_overflow\<lparr>stat_num_cycle := inc64 (stat_num_cycle pipe_overflow)\<rparr>)) = Some ?p"
    by (simp only: commit)
  have ok: "rob_ptrs_ok cfg_load2 (rob ?p)"
    by (simp add: rob_ptrs_ok_def pipe_overflow_def pipe_init_def rob_init_def cfg_load2_def)
  have drain: "exe_drain cfg_load2 [0..<0] ?p = (True, ?p)"
    by simp
  have v: "valid_latch (SC_latch ?p 0)" "valid_latch (SC_latch pipe_overflow 0)"
    by (simp_all add: pipe_overflow_def)
  have full: "MAX_WRITEBACKS \<le> length (exeq ?p)" "MAX_WRITEBACKS \<le> length (exeq pipe_overflow)"
    by (simp_all add: pipe_overflow_def MAX_WRITEBACKS_def)
  have nh: "\<not> halt pipe_overflow"
    by (simp add: pipe_overflow_def pipe_init_def)
  show ?thesis
    using exeq_overflow_halts [OF load n wb ok drain i v(1) full(1)] load v(2) full(2) nh
    by auto
qed


section \<open>The ROB is a queue in trace order\<close>

lemma rob_slot_inj:
  assumes "0 < NUM_ROB_ENTRIES cfg" "j1 < NUM_ROB_ENTRIES cfg" "j2 < NUM_ROB_ENTRIES cfg"
    "rob_slot cfg r j1 = rob_slot cfg r j2"
  shows "j1 = j2"
  using ring_slots_inj [of "int (NUM_ROB_ENTRIES cfg)" j1 j2 "head_ptr r"] assms
  by (simp add: rob_slot_def)

lemma rob_slot_0: "rob_ptrs_ok cfg r \<Longrightarrow> rob_slot cfg r 0 = head_ptr r"
  by (simp add: rob_slot_def rob_ptrs_ok_def)

lemma rob_fifo_skel:
  "rob_skel r r' \<Longrightarrow> rob_fifo cfg r c b \<Longrightarrow> rob_fifo cfg r' c b"
  unfolding rob_fifo_def rob_skel_def rob_slot_def rob_ptrs_ok_def by simp

lemma rob_fifo_space:
  assumes n: "0 < NUM_ROB_ENTRIES cfg" and f: "rob_fifo cfg r c b"
  shows "rob_check_space r \<longleftrightarrow> c < NUM_ROB_ENTRIES cfg"
proof -
  have ok: "rob_ptrs_ok cfg r" and le: "c \<le> NUM_ROB_ENTRIES cfg"
    and tail: "tail_ptr r = rob_slot cfg r c"
    using f by (simp_all add: rob_fifo_def rob_slot_def)
  have head: "head_ptr r = rob_slot cfg r 0" using ok by (simp add: rob_slot_0)
  show ?thesis
  proof (cases "c < NUM_ROB_ENTRIES cfg")
    case True
    have "\<not> (tail_ptr r = head_ptr r \<and> valid (entries r (head_ptr r)))"
    proof
      assume a: "tail_ptr r = head_ptr r \<and> valid (entries r (head_ptr r))"
      then have "rob_slot cfg r c = rob_slot cfg r 0" using tail head by simp
      then have "c = 0" using rob_slot_inj [OF n True _ , of 0 r] n by simp
      moreover from a f obtain j where "j < c" by (auto simp: rob_fifo_def)
      ultimately show False by simp
    qed
    with True show ?thesis by (auto simp: rob_check_space_def)
  next
    case False
    with le have c: "c = NUM_ROB_ENTRIES cfg" by simp
    have "tail_ptr r = head_ptr r"
      using tail ok by (simp add: c rob_slot_def rob_ptrs_ok_def)
    moreover have "valid (entries r (head_ptr r))"
      using f n c head by (auto simp: rob_fifo_def)
    ultimately show ?thesis using False by (simp add: rob_check_space_def)
  qed
qed

lemma rob_fifo_head:
  assumes f: "rob_fifo cfg r c b" and h: "rob_check_head r"
  shows "0 < c \<and> inst_num (inst (entries r (head_ptr r))) = b"
proof -
  have ok: "rob_ptrs_ok cfg r" using f by (simp add: rob_fifo_def)
  from h have "valid (entries r (head_ptr r))"
    by (simp add: rob_check_head_def rob_check_ready_def split: if_splits)
  with f obtain j where "j < c" by (auto simp: rob_fifo_def)
  then have c: "0 < c" by simp
  with f have "inst_num (inst (entries r (rob_slot cfg r 0))) = b + 0"
    unfolding rob_fifo_def by blast
  with c ok show ?thesis by (simp add: rob_slot_0)
qed

lemma rob_slot_shift:
  "rob_slot cfg (r\<lparr>entries := e, head_ptr := (head_ptr r + 1) mod int (NUM_ROB_ENTRIES cfg)\<rparr>) j
     = rob_slot cfg r (Suc j)"
proof -
  have "((head_ptr r + 1) mod int (NUM_ROB_ENTRIES cfg) + int j) mod int (NUM_ROB_ENTRIES cfg)
        = ((head_ptr r + 1) + int j) mod int (NUM_ROB_ENTRIES cfg)"
    by (rule mod_add_left_eq)
  then show ?thesis by (simp add: rob_slot_def algebra_simps)
qed

lemma rob_fifo_pop:
  assumes n: "0 < NUM_ROB_ENTRIES cfg" and f: "rob_fifo cfg r c b" and c: "0 < c"
  shows "rob_fifo cfg
           (r\<lparr>entries := (entries r)(head_ptr r := (entries r (head_ptr r))
                                      \<lparr>valid := False, exec := False, ready := False\<rparr>),
              head_ptr := (head_ptr r + 1) mod int (NUM_ROB_ENTRIES cfg)\<rparr>)
           (c - 1) (Suc b)"
    (is "rob_fifo cfg ?r' _ _")
proof -
  have ok: "rob_ptrs_ok cfg r" and le: "c \<le> NUM_ROB_ENTRIES cfg"
    and tail: "tail_ptr r = rob_slot cfg r c"
    and val: "\<And>j. j < c \<Longrightarrow> valid (entries r (rob_slot cfg r j)) \<and>
             inst_num (inst (entries r (rob_slot cfg r j))) = b + j"
    and win: "\<And>k. valid (entries r k) \<Longrightarrow> \<exists>j<c. k = rob_slot cfg r j"
    using f by (simp_all add: rob_fifo_def rob_slot_def)
  have head: "head_ptr r = rob_slot cfg r 0" using ok by (simp add: rob_slot_0)
  have slot: "rob_slot cfg ?r' j = rob_slot cfg r (Suc j)" for j
    by (rule rob_slot_shift)
  have ne: "rob_slot cfg r (Suc j) \<noteq> head_ptr r" if "Suc j < c" for j
  proof
    assume "rob_slot cfg r (Suc j) = head_ptr r"
    then have "rob_slot cfg r (Suc j) = rob_slot cfg r 0" using head by simp
    from rob_slot_inj [OF n _ _ this] that le n show False by simp
  qed
  show ?thesis
    unfolding rob_fifo_def
  proof (intro conjI allI impI)
    show "rob_ptrs_ok cfg ?r'"
      using ok n by (simp add: rob_ptrs_ok_def)
    show "c - 1 \<le> NUM_ROB_ENTRIES cfg" using le by simp
    have "rob_slot cfg ?r' (c - 1) = rob_slot cfg r c"
      using slot [of "c - 1"] c by simp
    then show "tail_ptr ?r' = (head_ptr ?r' + int (c - 1)) mod int (NUM_ROB_ENTRIES cfg)"
      using tail by (simp add: rob_slot_def)
  next
    fix j assume j: "j < c - 1"
    then have sj: "Suc j < c" by simp
    from ne [OF sj] val [OF sj]
    show "valid (entries ?r' (rob_slot cfg ?r' j))"
      and "inst_num (inst (entries ?r' (rob_slot cfg ?r' j))) = Suc b + j"
      by (simp_all add: slot)
  next
    fix k assume v: "valid (entries ?r' k)"
    then have k: "k \<noteq> head_ptr r" "valid (entries r k)"
      by (auto split: if_splits)
    from win [OF k(2)] obtain j where j: "j < c" "k = rob_slot cfg r j" by blast
    have "j \<noteq> 0"
    proof
      assume "j = 0"
      then have "k = head_ptr r" using j(2) head by simp
      with k(1) show False by simp
    qed
    then obtain j' where j': "j = Suc j'" by (cases j) auto
    with j have "j' < c - 1" "k = rob_slot cfg ?r' j'"
      by (simp_all add: slot)
    then show "\<exists>j<c - 1. k = rob_slot cfg ?r' j"
      by blast
  qed
qed

lemma rob_fifo_push:
  assumes n: "0 < NUM_ROB_ENTRIES cfg" and f: "rob_fifo cfg r c b" and c: "c < NUM_ROB_ENTRIES cfg"
    and num: "inst_num i = b + c"
  shows "rob_fifo cfg
           (r\<lparr>entries := (entries r)
                 (tail_ptr r := \<lparr>valid = True, exec = False, ready = False, inst = i\<rparr>),
              tail_ptr := (tail_ptr r + 1) mod int (NUM_ROB_ENTRIES cfg)\<rparr>)
           (Suc c) b"
    (is "rob_fifo cfg ?r' _ _")
proof -
  have ok: "rob_ptrs_ok cfg r"
    and tail: "tail_ptr r = rob_slot cfg r c"
    and val: "\<And>j. j < c \<Longrightarrow> valid (entries r (rob_slot cfg r j)) \<and>
             inst_num (inst (entries r (rob_slot cfg r j))) = b + j"
    and win: "\<And>k. valid (entries r k) \<Longrightarrow> \<exists>j<c. k = rob_slot cfg r j"
    using f by (simp_all add: rob_fifo_def rob_slot_def)
  have slot: "rob_slot cfg (r\<lparr>entries := e, tail_ptr := t\<rparr>) j = rob_slot cfg r j" for e t j
    by (simp add: rob_slot_def)
  have ne: "rob_slot cfg r j \<noteq> tail_ptr r" if "j < c" for j
  proof
    assume "rob_slot cfg r j = tail_ptr r"
    then have "rob_slot cfg r j = rob_slot cfg r c" using tail by simp
    from rob_slot_inj [OF n _ _ this] that c show False by simp
  qed
  show ?thesis
    unfolding rob_fifo_def
  proof (intro conjI allI impI)
    show "rob_ptrs_ok cfg ?r'"
      using ok n by (simp add: rob_ptrs_ok_def)
    show "Suc c \<le> NUM_ROB_ENTRIES cfg" using c by simp
    have "((head_ptr r + int c) mod int (NUM_ROB_ENTRIES cfg) + 1) mod int (NUM_ROB_ENTRIES cfg)
          = ((head_ptr r + int c) + 1) mod int (NUM_ROB_ENTRIES cfg)"
      by (rule mod_add_left_eq)
    then show "tail_ptr ?r' = (head_ptr ?r' + int (Suc c)) mod int (NUM_ROB_ENTRIES cfg)"
      using tail by (simp add: rob_slot_def algebra_simps)
  next
    fix j assume j: "j < Suc c"
    show "valid (entries ?r' (rob_slot cfg ?r' j))"
      and "inst_num (inst (entries ?r' (rob_slot cfg ?r' j))) = b + j"
    proof -
      show "valid (entries ?r' (rob_slot cfg ?r' j))"
      proof (cases "j < c")
        case True
        with ne [OF True] val [OF True] show ?thesis by (simp add: slot)
      next
        case False
        with j have "j = c" by simp
        then show ?thesis using tail by (simp add: slot)
      qed
      show "inst_num (inst (entries ?r' (rob_slot cfg ?r' j))) = b + j"
      proof (cases "j < c")
        case True
        with ne [OF True] val [OF True] show ?thesis by (simp add: slot)
      next
        case False
        with j have "j = c" by simp
        then show ?thesis using tail num by (simp add: slot)
      qed
    qed
  next
    fix k assume v: "valid (entries ?r' k)"
    show "\<exists>j<Suc c. k = rob_slot cfg ?r' j"
    proof (cases "k = tail_ptr r")
      case True
      then show ?thesis using tail by (auto simp: slot)
    next
      case False
      with v have "valid (entries r k)" by simp
      from win [OF this] show ?thesis
        using less_Suc_eq by (auto simp: slot)
    qed
  qed
qed


section \<open>Commit, fetch and decode keep the invariant\<close>

lemma latch_cover_valid_cong:
  assumes "\<And>i. i < w \<Longrightarrow> valid_latch (l' i) = valid_latch (l i) \<and>
             inst_num (inst_latch (l' i)) = inst_num (inst_latch (l i))"
  shows "latch_cover w l' a b = latch_cover w l a b"
  unfolding latch_cover_def using assms by (simp cong: conj_cong)

lemma pipe_inv_backend:
  "backend_rel p p' \<Longrightarrow> pipe_inv cfg c p \<Longrightarrow> pipe_inv cfg c p'"
  unfolding pipe_inv_def backend_rel_def using rob_fifo_skel by auto

lemma pipe_inv_init:
  assumes "0 < NUM_ROB_ENTRIES cfg" "length tr < 2 ^ 64 - 1"
  shows "pipe_inv cfg 0 (pipe_init tr mem)"
  using assms
  by (simp add: pipe_inv_def pipe_init_def rob_fifo_def rob_init_def rob_ptrs_ok_def
      latch_cover_def zero_latch_def)

lemma inc64_Suc: "n < 2 ^ 64 - 1 \<Longrightarrow> inc64 n = Suc n"
  by (simp add: inc64_def)

lemma commit_lane_inv:
  assumes n: "0 < NUM_ROB_ENTRIES cfg" and inv: "pipe_inv cfg c p"
  shows "\<exists>c'. pipe_inv cfg c' (commit_lane cfg i p)"
proof (cases "rob_check_head (rob p)")
  case False
  then show ?thesis using inv by (auto simp: commit_lane_def)
next
  case True
  let ?h = "inst (entries (rob p) (head_ptr (rob p)))"
  let ?r' = "(rob p)\<lparr>entries := (entries (rob p))
                 (head_ptr (rob p) := (entries (rob p) (head_ptr (rob p)))
                                        \<lparr>valid := False, exec := False, ready := False\<rparr>),
               head_ptr := (head_ptr (rob p) + 1) mod int (NUM_ROB_ENTRIES cfg)\<rparr>"
  have f: "rob_fifo cfg (rob p) c (Suc (stat_retired_inst p))"
    using inv by (simp add: pipe_inv_def)
  from rob_fifo_head [OF f True] have c: "0 < c"
    and num: "inst_num ?h = Suc (stat_retired_inst p)" by simp_all
  have f': "rob_fifo cfg ?r' (c - 1) (Suc (Suc (stat_retired_inst p)))"
    by (rule rob_fifo_pop [OF n f c])
  have small: "stat_retired_inst p < 2 ^ 64 - 1"
    using inv c by (simp add: pipe_inv_def)
  have eq: "commit_lane cfg i p = commit_retire i ?h (p\<lparr>rob := ?r'\<rparr>)"
    using True by (simp add: commit_lane_def rob_remove_head_checked)
  have fields: "rob (commit_retire i ?h (p\<lparr>rob := ?r'\<rparr>)) = ?r'"
    "stat_retired_inst (commit_retire i ?h (p\<lparr>rob := ?r'\<rparr>)) = Suc (stat_retired_inst p)"
    "retired_log (commit_retire i ?h (p\<lparr>rob := ?r'\<rparr>)) = retired_log p @ [inst_num ?h]"
    "FE_latch (commit_retire i ?h (p\<lparr>rob := ?r'\<rparr>)) = FE_latch p"
    "next_inst_num (commit_retire i ?h (p\<lparr>rob := ?r'\<rparr>)) = next_inst_num p"
    "last_inst_num (commit_retire i ?h (p\<lparr>rob := ?r'\<rparr>)) = last_inst_num p"
    "trace (commit_retire i ?h (p\<lparr>rob := ?r'\<rparr>)) = trace p"
    "\<And>j. valid_latch (ID_latch (commit_retire i ?h (p\<lparr>rob := ?r'\<rparr>)) j) = valid_latch (ID_latch p j)
       \<and> inst_num (inst_latch (ID_latch (commit_retire i ?h (p\<lparr>rob := ?r'\<rparr>)) j))
          = inst_num (inst_latch (ID_latch p j))"
    by (simp_all add: commit_retire_def pipe_commit_inst_def Let_def inc64_Suc [OF small])
  have "pipe_inv cfg (c - 1) (commit_retire i ?h (p\<lparr>rob := ?r'\<rparr>))"
    unfolding pipe_inv_def fields(1-7) latch_cover_valid_cong [of _ _ "ID_latch p", OF fields(8)]
    using inv f' c num by (simp add: pipe_inv_def)
  then show ?thesis unfolding eq by blast
qed

lemma commit_inv:
  assumes n: "0 < NUM_ROB_ENTRIES cfg" and inv: "pipe_inv cfg c p"
  shows "\<exists>c'. pipe_inv cfg c' (pipe_cycle_commit cfg p)"
proof -
  have step: "\<exists>c'. pipe_inv cfg c' (commit_lane cfg i q)" if "\<exists>c'. pipe_inv cfg c' q"
    for i q and ys :: "nat list"
    using that commit_lane_inv [OF n] by blast
  from fold_rule [where I = "\<lambda>ys q. \<exists>c'. pipe_inv cfg c' q" and f = "commit_lane cfg"
      and xs = "[]" and p = p, OF _ step] inv
  show ?thesis by (auto simp: pipe_cycle_commit_def)
qed

lemma fold_rule_mem:
  assumes "\<And>ys i q. i \<in> set ls \<Longrightarrow> I ys q \<Longrightarrow> I (ys @ [i]) (f i q)"
    and "I xs p"
  shows "I (xs @ ls) (fold f ls p)"
  using assms
proof (induction ls arbitrary: xs p)
  case Nil
  then show ?case by simp
next
  case (Cons i ls)
  have "I (xs @ [i]) (f i p)"
    using Cons.prems by simp
  from Cons.IH [OF _ this] Cons.prems(1) show ?case by simp
qed

lemma latch_cover_add:
  assumes c: "latch_cover w l a b" and i: "i < w" and inv: "\<not> valid_latch (l i)"
    and x: "valid_latch x" "inst_num (inst_latch x) = b" and ab: "a \<le> b"
  shows "latch_cover w (l(i := x)) a (Suc b)"
  unfolding latch_cover_def
proof (intro conjI allI impI)
  fix j assume j: "j < w" "valid_latch ((l(i := x)) j)"
  show "a \<le> inst_num (inst_latch ((l(i := x)) j))"
    and "inst_num (inst_latch ((l(i := x)) j)) < Suc b"
    using c j x ab by (auto simp: latch_cover_def less_Suc_eq)
next
  fix j k assume jk: "j < w" "k < w"
    "valid_latch ((l(i := x)) j) \<and> valid_latch ((l(i := x)) k) \<and>
     inst_num (inst_latch ((l(i := x)) j)) = inst_num (inst_latch ((l(i := x)) k))"
  have lt: "inst_num (inst_latch (l n)) < b" if "n < w" "valid_latch (l n)" for n
    using c that unfolding latch_cover_def by blast
  show "j = k"
  proof (cases "j = i")
    case ji: True
    show ?thesis
    proof (cases "k = i")
      case True
      with ji show ?thesis by simp
    next
      case False
      with ji jk x lt [of k] show ?thesis by auto
    qed
  next
    case ji: False
    show ?thesis
    proof (cases "k = i")
      case True
      with ji jk x lt [of j] show ?thesis by auto
    next
      case False
      with ji jk c show ?thesis
        unfolding latch_cover_def by simp
    qed
  qed
next
  fix m assume m: "a \<le> m \<and> m < Suc b"
  show "\<exists>j<w. valid_latch ((l(i := x)) j) \<and> inst_num (inst_latch ((l(i := x)) j)) = m"
  proof (cases "m = b")
    case True
    with i x show ?thesis by auto
  next
    case False
    with m have "a \<le> m \<and> m < b" by simp
    with c obtain j where j: "j < w" "valid_latch (l j)" "inst_num (inst_latch (l j)) = m"
      unfolding latch_cover_def by blast
    with inv have "j \<noteq> i" by auto
    with j show ?thesis by auto
  qed
qed

lemma latch_cover_remove_min:
  assumes c: "latch_cover w l a b" and i: "i < w" and v: "valid_latch (l i)"
    and num: "inst_num (inst_latch (l i)) = a" and x: "\<not> valid_latch x"
  shows "latch_cover w (l(i := x)) (Suc a) b"
  unfolding latch_cover_def
proof (intro conjI allI impI)
  fix j assume j: "j < w" "valid_latch ((l(i := x)) j)"
  with x have ji: "j \<noteq> i" and vj: "valid_latch (l j)" by (auto split: if_splits)
  from c j(1) vj have r: "a \<le> inst_num (inst_latch (l j))" "inst_num (inst_latch (l j)) < b"
    unfolding latch_cover_def by blast+
  have "inst_num (inst_latch (l j)) \<noteq> a"
  proof
    assume "inst_num (inst_latch (l j)) = a"
    with c i j(1) v vj num have "j = i"
      unfolding latch_cover_def by metis
    with ji show False by simp
  qed
  with r ji show "Suc a \<le> inst_num (inst_latch ((l(i := x)) j))"
    and "inst_num (inst_latch ((l(i := x)) j)) < b"
    by simp_all
next
  fix j k assume jk: "j < w" "k < w"
    "valid_latch ((l(i := x)) j) \<and> valid_latch ((l(i := x)) k) \<and>
     inst_num (inst_latch ((l(i := x)) j)) = inst_num (inst_latch ((l(i := x)) k))"
  with x have "j \<noteq> i" "k \<noteq> i" by (auto split: if_splits)
  with jk c show "j = k"
    unfolding latch_cover_def by simp
next
  fix m assume m: "Suc a \<le> m \<and> m < b"
  with c obtain j where j: "j < w" "valid_latch (l j)" "inst_num (inst_latch (l j)) = m"
    unfolding latch_cover_def by (metis Suc_leD)
  with m num have "j \<noteq> i" by auto
  with j show "\<exists>j<w. valid_latch ((l(i := x)) j) \<and> inst_num (inst_latch ((l(i := x)) j)) = m"
    by auto
qed

lemma fetch_fail_inv:
  assumes inv: "pipe_inv cfg c p" and nv: "\<not> valid_latch (FE_latch p i)"
    and tr: "length (trace p') \<le> length (trace p)"
    and same: "p' = p\<lparr>trace := trace p'\<rparr>"
  shows "pipe_inv cfg c (fetch_fail i p')"
proof -
  have fields: "rob (fetch_fail i p') = rob p"
    "stat_retired_inst (fetch_fail i p') = stat_retired_inst p"
    "retired_log (fetch_fail i p') = retired_log p"
    "ID_latch (fetch_fail i p') = ID_latch p"
    "next_inst_num (fetch_fail i p') = next_inst_num p"
    "last_inst_num (fetch_fail i p') = last_inst_num p"
    "trace (fetch_fail i p') = trace p'"
    "\<And>j. valid_latch (FE_latch (fetch_fail i p') j) = valid_latch (FE_latch p j)
       \<and> inst_num (inst_latch (FE_latch (fetch_fail i p') j))
          = inst_num (inst_latch (FE_latch p j))"
    using nv by (subst same, simp add: fetch_fail_def Let_def)+
  show ?thesis
    unfolding pipe_inv_def fields(1-7) latch_cover_valid_cong [of _ _ "FE_latch p", OF fields(8)]
    using inv tr by (simp add: pipe_inv_def)
qed

lemma fetch_lane_inv:
  assumes inv: "pipe_inv cfg c p" and i: "i < PIPE_WIDTH cfg"
  shows "pipe_inv cfg c (fetch_lane cfg i p)"
proof (cases "\<not> stall (FE_latch p i) \<and> \<not> valid_latch (FE_latch p i)")
  case False
  then show ?thesis using inv by (auto simp: fetch_lane_def)
next
  case True
  then have nv: "\<not> valid_latch (FE_latch p i)" by simp
  show ?thesis
  proof (cases "trace p")
    case Nil
    have "pipe_inv cfg c (fetch_fail i p)"
      by (rule fetch_fail_inv [OF inv nv]) simp_all
    with True Nil show ?thesis
      by (simp add: fetch_lane_def pipe_fetch_inst_def)
  next
    case (Cons r rest)
    show ?thesis
    proof (cases "NUM_OP_TYPES cfg \<le> t_op_type r")
      case bad: True
      have "pipe_inv cfg c (fetch_fail i (p\<lparr>trace := rest\<rparr>))"
        by (rule fetch_fail_inv [OF inv nv]) (simp_all add: Cons)
      with True Cons bad show ?thesis
        by (simp add: fetch_lane_def pipe_fetch_inst_def)
    next
      case good: False
      let ?x = "\<lparr>valid_latch = True, stall = False,
                 inst_latch =
                   \<lparr>inst_num = inc64 (last_inst_num p),
                    op_type = t_op_type r,
                    dest_reg = (if t_dest_needed r then int (t_dest_reg r) else - 1),
                    src1_reg = (if t_src1_needed r then int (t_src1_reg r) else - 1),
                    src2_reg = (if t_src2_needed r then int (t_src2_reg r) else - 1),
                    dr_tag = - 1, src1_tag = - 1, src2_tag = - 1,
                    src1_ready = False, src2_ready = False,
                    exe_wait_cycles = 0\<rparr>\<rparr>"
      let ?p' = "p\<lparr>trace := rest, last_inst_num := inc64 (last_inst_num p),
                    FE_latch := (FE_latch p)(i := ?x)\<rparr>"
      have small: "last_inst_num p < 2 ^ 64 - 1"
        using inv Cons by (simp add: pipe_inv_def)
      have inc: "inc64 (last_inst_num p) = Suc (last_inst_num p)"
        by (rule inc64_Suc [OF small])
      have fe: "latch_cover (PIPE_WIDTH cfg) ((FE_latch p)(i := ?x)) (next_inst_num p)
                  (Suc (Suc (last_inst_num p)))"
        using inv by (intro latch_cover_add [where l = "FE_latch p" and i = i and w = "PIPE_WIDTH cfg"] i nv) (simp_all add: pipe_inv_def inc)
      have "pipe_inv cfg c ?p'"
        using inv fe Cons by (simp add: pipe_inv_def inc)
      with True Cons good show ?thesis
        by (simp add: fetch_lane_def pipe_fetch_inst_def)
    qed
  qed
qed

lemma fetch_inv:
  assumes inv: "pipe_inv cfg c p"
  shows "pipe_inv cfg c (pipe_cycle_fetch cfg p)"
proof -
  have "pipe_inv cfg c (fetch_lane cfg i q)"
    if "i \<in> set [0..<PIPE_WIDTH cfg]" "pipe_inv cfg c q" for i q and ys :: "nat list"
    using that fetch_lane_inv by simp
  from fold_rule_mem [where I = "\<lambda>ys. pipe_inv cfg c" and f = "fetch_lane cfg"
      and xs = "[]" and ls = "[0..<PIPE_WIDTH cfg]", OF this inv]
  show ?thesis by (simp add: pipe_cycle_fetch_def)
qed

lemma decode_lane_inv:
  assumes inv: "pipe_inv cfg c p" and i: "i < PIPE_WIDTH cfg"
  shows "pipe_inv cfg c (decode_lane cfg i p)"
proof (cases "\<not> stall (ID_latch p i) \<and> \<not> valid_latch (ID_latch p i)")
  case False
  then show ?thesis using inv by (auto simp: decode_lane_def)
next
  case True
  then have nv: "\<not> valid_latch (ID_latch p i)" by simp
  let ?P = "\<lambda>j. valid_latch (FE_latch p j) \<and>
                 inst_num (inst_latch (FE_latch p j)) = next_inst_num p"
  show ?thesis
  proof (cases "find ?P [0..<PIPE_WIDTH cfg]")
    case None
    with True inv show ?thesis by (simp add: decode_lane_def)
  next
    case (Some j)
    then have j: "j < PIPE_WIDTH cfg" "valid_latch (FE_latch p j)"
      "inst_num (inst_latch (FE_latch p j)) = next_inst_num p"
      by (auto simp: find_Some_iff)
    let ?p' = "p\<lparr>ID_latch := (ID_latch p)(i := FE_latch p j),
                  FE_latch := (FE_latch p)(j := (FE_latch p j)\<lparr>valid_latch := False\<rparr>),
                  next_inst_num := inc64 (next_inst_num p)\<rparr>"
    have fe: "latch_cover (PIPE_WIDTH cfg) (FE_latch p) (next_inst_num p) (Suc (last_inst_num p))"
      and idc: "latch_cover (PIPE_WIDTH cfg) (ID_latch p) (Suc (stat_retired_inst p + c))
                 (next_inst_num p)"
      and le: "Suc (stat_retired_inst p + c) \<le> next_inst_num p"
      using inv by (simp_all add: pipe_inv_def)
    from fe j have lt: "next_inst_num p < Suc (last_inst_num p)"
      unfolding latch_cover_def by metis
    have small: "next_inst_num p < 2 ^ 64 - 1"
      using inv lt by (simp add: pipe_inv_def)
    have inc: "inc64 (next_inst_num p) = Suc (next_inst_num p)"
      by (rule inc64_Suc [OF small])
    have id': "latch_cover (PIPE_WIDTH cfg) ((ID_latch p)(i := FE_latch p j))
                 (Suc (stat_retired_inst p + c)) (Suc (next_inst_num p))"
      using idc i nv j(2,3) le by (rule latch_cover_add)
    have fe': "latch_cover (PIPE_WIDTH cfg)
                 ((FE_latch p)(j := (FE_latch p j)\<lparr>valid_latch := False\<rparr>))
                 (Suc (next_inst_num p)) (Suc (last_inst_num p))"
      using fe j by (rule latch_cover_remove_min) simp
    have "pipe_inv cfg c ?p'"
      using inv id' fe' lt le by (simp add: pipe_inv_def inc)
    with True Some show ?thesis
      by (simp add: decode_lane_def)
  qed
qed

lemma decode_inv:
  assumes inv: "pipe_inv cfg c p"
  shows "pipe_inv cfg c (pipe_cycle_decode cfg p)"
proof -
  have "pipe_inv cfg c (decode_lane cfg i q)"
    if "i \<in> set [0..<PIPE_WIDTH cfg]" "pipe_inv cfg c q" for i q and ys :: "nat list"
    using that decode_lane_inv by simp
  from fold_rule_mem [where I = "\<lambda>ys. pipe_inv cfg c" and f = "decode_lane cfg"
      and xs = "[]" and ls = "[0..<PIPE_WIDTH cfg]", OF this inv]
  show ?thesis by (simp add: pipe_cycle_decode_def)
qed


section \<open>The bubble sort of the ID latches\<close>

lemma fold_upt_rule:
  assumes "P 0 s" and "\<And>i q. i < n \<Longrightarrow> P i q \<Longrightarrow> P (Suc i) (f i q)"
  shows "P n (fold f [0..<n] s)"
  using assms(2)
proof (induction n)
  case 0
  then show ?case using assms(1) by simp
next
  case (Suc n)
  have "P n (fold f [0..<n] s)"
    using Suc.IH Suc.prems by simp
  from Suc.prems [OF _ this] show ?case by simp
qed

lemma perm_lanes_refl: "perm_lanes w l l"
  unfolding perm_lanes_def by (rule exI [of _ id], rule exI [of _ id]) simp

lemma perm_lanes_trans:
  assumes "perm_lanes w a b" "perm_lanes w b c"
  shows "perm_lanes w a c"
proof -
  from assms(1) obtain s t where 1: "\<And>i. t (s i) = i" "\<And>i. s (t i) = i" "\<And>i. b i = a (s i)"
    "\<And>i. w \<le> i \<Longrightarrow> s i = i"
    unfolding perm_lanes_def by blast
  from assms(2) obtain s' t' where 2: "\<And>i. t' (s' i) = i" "\<And>i. s' (t' i) = i" "\<And>i. c i = b (s' i)"
    "\<And>i. w \<le> i \<Longrightarrow> s' i = i"
    unfolding perm_lanes_def by blast
  show ?thesis
    unfolding perm_lanes_def
    by (rule exI [of _ "s \<circ> s'"], rule exI [of _ "t' \<circ> t"]) (simp add: 1 2)
qed

lemma perm_lanes_mono: "perm_lanes w l l' \<Longrightarrow> w \<le> w' \<Longrightarrow> perm_lanes w' l l'"
  unfolding perm_lanes_def by (meson le_trans)

lemma perm_lanes_swap:
  assumes "j < w" "k < w"
  shows "perm_lanes w l (\<lambda>i. l (lane_swap j k i))"
  unfolding perm_lanes_def
  by (rule exI [of _ "lane_swap j k"], rule exI [of _ "lane_swap j k"])
     (use assms in \<open>auto simp: lane_swap_def\<close>)

lemma perm_lanes_bound:
  assumes "\<And>i. t (s i) = i" "\<And>i. w \<le> i \<Longrightarrow> s i = i" "i < w"
  shows "s i < (w::nat)"
proof (rule ccontr)
  assume "\<not> s i < w"
  then have "s (s i) = s i" using assms(2) by simp
  then have "t (s (s i)) = t (s i)" by simp
  then have "s i = i" using assms(1) by simp
  with \<open>\<not> s i < w\<close> assms(3) show False by simp
qed

lemma perm_lanes_source:
  assumes "perm_lanes w l l'" "i < w"
  shows "\<exists>k<w. l' i = l k"
proof -
  from assms(1) obtain s t where 1: "\<And>i. t (s i) = i" "\<And>i. s (t i) = i" "\<And>i. l' i = l (s i)"
    "\<And>i. w \<le> i \<Longrightarrow> s i = i"
    unfolding perm_lanes_def by blast
  from perm_lanes_bound [of t s w i, OF 1(1) 1(4) assms(2)] 1(3) show ?thesis by blast
qed

lemma perm_lanes_outside: "perm_lanes w l l' \<Longrightarrow> w \<le> i \<Longrightarrow> l' i = l i"
  unfolding perm_lanes_def by auto

lemma latch_cover_perm:
  assumes p: "perm_lanes w l l'" and c: "latch_cover w l a b"
  shows "latch_cover w l' a b"
proof -
  from p obtain s t where 1: "\<And>i. t (s i) = i" "\<And>i. s (t i) = i" "\<And>i. l' i = l (s i)"
    "\<And>i. w \<le> i \<Longrightarrow> s i = i"
    unfolding perm_lanes_def by blast
  have sb: "s i < w" if "i < w" for i
    by (rule perm_lanes_bound [of t s, OF 1(1) 1(4) that])
  have tb: "t i < w" if "i < w" for i
  proof (rule ccontr)
    assume "\<not> t i < w"
    then have "s (t i) = t i" using 1(4) by simp
    with 1(2) have "t i = i" by simp
    with \<open>\<not> t i < w\<close> that show False by simp
  qed
  show ?thesis
    unfolding latch_cover_def
  proof (intro conjI allI impI)
    fix i assume "i < w" "valid_latch (l' i)"
    then show "a \<le> inst_num (inst_latch (l' i))" "inst_num (inst_latch (l' i)) < b"
      using c sb [of i] unfolding latch_cover_def 1(3) by blast+
  next
    fix i j assume ij: "i < w" "j < w"
      "valid_latch (l' i) \<and> valid_latch (l' j) \<and>
       inst_num (inst_latch (l' i)) = inst_num (inst_latch (l' j))"
    then have "s i = s j"
      using c sb [of i] sb [of j] unfolding latch_cover_def 1(3) by blast
    then have "t (s i) = t (s j)" by simp
    then show "i = j" by (simp add: 1(1))
  next
    fix m assume "a \<le> m \<and> m < b"
    with c obtain k where k: "k < w" "valid_latch (l k)" "inst_num (inst_latch (l k)) = m"
      unfolding latch_cover_def by blast
    have "l' (t k) = l k" by (simp add: 1(2,3))
    with k tb [OF k(1)]
    show "\<exists>i<w. valid_latch (l' i) \<and> inst_num (inst_latch (l' i)) = m"
      by auto
  qed
qed

lemma sort_step_swap:
  "sort_step j l = l \<or> sort_step j l = (\<lambda>i. l (lane_swap j (Suc j) i))"
  by (auto simp: sort_step_def lane_swap_def fun_eq_iff Let_def)

lemma sort_step_perm: "Suc j < w \<Longrightarrow> perm_lanes w l (sort_step j l)"
  using sort_step_swap [of j l] perm_lanes_swap [of j w "Suc j" l] perm_lanes_refl [of w l]
  by auto

lemma sort_step_keys:
  "key (sort_step j l j) \<le> key (sort_step j l (Suc j))"
  "key (sort_step j l (Suc j)) = max (key (l j)) (key (l (Suc j)))"
  by (auto simp: sort_step_def Let_def)

lemma bubble_pass:
  "perm_lanes (Suc m) l (fold sort_step [0..<m] l) \<and>
   (\<forall>x\<le>m. key (fold sort_step [0..<m] l x) \<le> key (fold sort_step [0..<m] l m))"
proof (induction m)
  case 0
  then show ?case by (simp add: perm_lanes_refl)
next
  case (Suc m)
  let ?l1 = "fold sort_step [0..<m] l"
  let ?l2 = "sort_step m ?l1"
  from Suc.IH have p1: "perm_lanes (Suc m) l ?l1"
    and mx: "\<And>x. x \<le> m \<Longrightarrow> key (?l1 x) \<le> key (?l1 m)" by simp_all
  have p2: "perm_lanes (Suc (Suc m)) l ?l2"
    by (rule perm_lanes_trans [OF perm_lanes_mono [OF p1] sort_step_perm]) simp_all
  have top: "key (?l2 (Suc m)) = max (key (?l1 m)) (key (?l1 (Suc m)))"
    by (rule sort_step_keys(2))
  have le: "key (?l2 x) \<le> key (?l2 (Suc m))" if "x \<le> Suc m" for x
  proof (cases "x < m")
    case True
    then have "?l2 x = ?l1 x"
      by (simp add: sort_step_def Let_def)
    with mx [of x] True top show ?thesis by simp
  next
    case False
    with that have "x = m \<or> x = Suc m" by auto
    then show ?thesis using sort_step_keys(1) [of m ?l1] by auto
  qed
  show ?case using p2 le by simp
qed

lemma usub_gen:
  assumes "b \<le> a" "a < (m::nat)"
  shows "(a + m - b mod m) mod m = a - b"
proof -
  have bm: "b mod m = b" using assms by simp
  have "a + m - b = m + (a - b)" using assms(1) by simp
  then have "(a + m - b) mod m = (a - b) mod m" by simp
  also have "\<dots> = a - b" using assms(2) by simp
  finally show ?thesis by (simp only: bm)
qed

lemma usub32_eq: "b \<le> a \<Longrightarrow> a < 2 ^ 32 \<Longrightarrow> usub32 a b = a - b"
  unfolding usub32_def by (rule usub_gen)

lemma top_sorted_step:
  assumes ts: "top_sorted w (Suc m) a" and pb: "perm_lanes (Suc m) a b"
    and mx: "\<And>x. x \<le> m \<Longrightarrow> key (b x) \<le> key (b m)"
  shows "top_sorted w m b"
proof -
  from ts have A: "\<And>x y. Suc m \<le> x \<Longrightarrow> x \<le> y \<Longrightarrow> y < w \<Longrightarrow> key (a x) \<le> key (a y)"
    and B: "\<And>x y. x < Suc m \<Longrightarrow> Suc m \<le> y \<Longrightarrow> y < w \<Longrightarrow> key (a x) \<le> key (a y)"
    unfolding top_sorted_def by blast+
  have out: "b y = a y" if "Suc m \<le> y" for y
    using perm_lanes_outside [OF pb that] .
  have low: "key (b x) \<le> key (b y)" if "x \<le> m" "Suc m \<le> y" "y < w" for x y
  proof -
    have "x < Suc m" using that(1) by simp
    from perm_lanes_source [OF pb this] obtain k where k: "k < Suc m" "b x = a k" by blast
    from B [OF k(1) that(2,3)] k(2) out [OF that(2)] show ?thesis by simp
  qed
  have Q: "key (b x) \<le> key (b y)" if "m \<le> x" "x \<le> y" "y < w" for x y
  proof (cases "x = m")
    case True
    show ?thesis
    proof (cases "y = m")
      case True
      with \<open>x = m\<close> show ?thesis by simp
    next
      case False
      with that True have "Suc m \<le> y" by simp
      from low [OF _ this that(3), of x] True show ?thesis by simp
    qed
  next
    case False
    with that have x: "Suc m \<le> x" and y: "Suc m \<le> y" by simp_all
    from A [OF x that(2,3)] out [OF x] out [OF y] show ?thesis by simp
  qed
  have R: "key (b x) \<le> key (b y)" if "x < m" "m \<le> y" "y < w" for x y
  proof (cases "y = m")
    case True
    from mx [of x] that(1) True show ?thesis by simp
  next
    case False
    with that have "Suc m \<le> y" by simp
    from low [OF _ this that(3), of x] that(1) show ?thesis by simp
  qed
  show ?thesis
    unfolding top_sorted_def using Q R by blast
qed

lemma bubble_sort:
  assumes n: "n \<le> w - 1" and w: "1 \<le> w"
  shows "perm_lanes w l (fold (\<lambda>i. fold sort_step [0..<w - i - 1]) [0..<n] l) \<and>
         top_sorted w (w - n) (fold (\<lambda>i. fold sort_step [0..<w - i - 1]) [0..<n] l)"
  using n
proof (induction n)
  case 0
  have "top_sorted w w l" unfolding top_sorted_def by simp
  then show ?case by (simp add: perm_lanes_refl)
next
  case (Suc n)
  define a where "a = fold (\<lambda>i. fold sort_step [0..<w - i - 1]) [0..<n] l"
  define m where "m = w - n - 1"
  define b where "b = fold sort_step [0..<m] a"
  have eq: "fold (\<lambda>i. fold sort_step [0..<w - i - 1]) [0..<Suc n] l = b"
    unfolding a_def b_def m_def by (simp only: upt_Suc_append le0 fold_append fold_simps comp_apply id_apply)
  have nw: "n \<le> w - 1" using Suc.prems by simp
  have ms: "Suc m = w - n" "w - Suc n = m" "Suc m \<le> w"
    using Suc.prems unfolding m_def by simp_all
  from Suc.IH [OF nw] have pa: "perm_lanes w l a" and ta: "top_sorted w (Suc m) a"
    unfolding a_def ms(1) by simp_all
  from bubble_pass [of m a] have pb: "perm_lanes (Suc m) a b"
    and mx: "\<And>x. x \<le> m \<Longrightarrow> key (b x) \<le> key (b m)"
    unfolding b_def by simp_all
  have "perm_lanes w l b"
    by (rule perm_lanes_trans [OF pa perm_lanes_mono [OF pb ms(3)]])
  moreover have "top_sorted w m b"
    by (rule top_sorted_step [OF ta pb mx])
  ultimately show ?case
    unfolding eq ms(2) by simp
qed

lemma sort_ID_sorted:
  assumes "1 \<le> PIPE_WIDTH cfg" "PIPE_WIDTH cfg \<le> MAX_PIPE_WIDTH"
  shows "perm_lanes (PIPE_WIDTH cfg) l (sort_ID cfg l) \<and> sorted_keys (PIPE_WIDTH cfg) (sort_ID cfg l)"
proof -
  define w where "w = PIPE_WIDTH cfg"
  have small: "w < 2 ^ 32" using assms(2) unfolding w_def MAX_PIPE_WIDTH_def by simp
  have w1: "1 \<le> w" using assms(1) unfolding w_def .
  have u1: "usub32 w 1 = w - 1" using w1 small by (rule usub32_eq)
  have pass: "sort_pass cfg i = fold sort_step [0..<w - i - 1]" if "i \<in> set [0..<w - 1]" for i
  proof -
    from that have i: "i < w - 1" by simp
    have a: "usub32 w i = w - i" using i small by (intro usub32_eq) simp_all
    have b: "usub32 (w - i) 1 = w - i - 1" using i small by (intro usub32_eq) simp_all
    show ?thesis
      unfolding sort_pass_def w_def [symmetric] a b by (simp add: fun_eq_iff)
  qed
  have eq: "sort_ID cfg l = fold (\<lambda>i. fold sort_step [0..<w - i - 1]) [0..<w - 1] l"
    unfolding sort_ID_def w_def [symmetric] u1
    by (rule fold_cong) (simp_all add: pass)
  from bubble_sort [OF le_refl w1, of l]
  have p: "perm_lanes w l (sort_ID cfg l)" and t: "top_sorted w (w - (w - 1)) (sort_ID cfg l)"
    unfolding eq by simp_all
  have one: "w - (w - 1) = 1" using w1 by simp
  from t have a': "\<And>x y. 1 \<le> x \<Longrightarrow> x \<le> y \<Longrightarrow> y < w \<Longrightarrow>
              key (sort_ID cfg l x) \<le> key (sort_ID cfg l y)"
    and b': "\<And>x y. x < 1 \<Longrightarrow> 1 \<le> y \<Longrightarrow> y < w \<Longrightarrow>
              key (sort_ID cfg l x) \<le> key (sort_ID cfg l y)"
    unfolding one top_sorted_def by blast+
  have "key (sort_ID cfg l x) \<le> key (sort_ID cfg l y)" if "x \<le> y" "y < w" for x y
  proof (cases "1 \<le> x")
    case True
    from a' [OF True that] show ?thesis .
  next
    case False
    then have x: "x = 0" by simp
    show ?thesis
    proof (cases "1 \<le> y")
      case True
      from b' [OF _ True that(2), of x] x show ?thesis by simp
    next
      case False
      then have "y = 0" by simp
      with x show ?thesis by simp
    qed
  qed
  then have "sorted_keys w (sort_ID cfg l)"
    unfolding sorted_keys_def by simp
  with p show ?thesis unfolding w_def by simp
qed


section \<open>The issue stage keeps the invariant\<close>

lemma rob_skel_set_inst:
  "(\<And>x. inst_num (f x) = inst_num x) \<Longrightarrow> rob_skel r (rob_set_inst r idx f)"
  by (simp add: rob_skel_def rob_set_inst_def)

lemma rob_skel_rename_src1: "rob_skel r (rename_src1 t idx r)"
  by (simp add: rename_src1_def rob_skel_def rob_set_inst_def Let_def)

lemma rob_skel_rename_src2: "rob_skel r (rename_src2 t idx r)"
  by (simp add: rename_src2_def rob_skel_def rob_set_inst_def Let_def)

lemma issue_insert_fields:
  assumes ok: "rob_ptrs_ok cfg (rob p)" and sp: "rob_check_space (rob p)"
  shows "rob_skel (fst (rob_insert cfg (rob p) (inst_latch (ID_latch p i))))
           (rob (issue_insert cfg i p))"
    and "ID_latch (issue_insert cfg i p)
           = (ID_latch p)(i := (ID_latch p i)\<lparr>valid_latch := False\<rparr>)"
    and "front_same p (issue_insert cfg i p)"
proof -
  define idx where "idx = tail_ptr (rob p)"
  define r0 where "r0 = fst (rob_insert cfg (rob p) (inst_latch (ID_latch p i)))"
  have ins: "rob_insert cfg (rob p) (inst_latch (ID_latch p i)) = (r0, idx)"
    unfolding r0_def idx_def using sp by (simp add: rob_insert_def Let_def)
  have idx: "idx \<noteq> - 1"
    using ok unfolding idx_def rob_ptrs_ok_def by simp
  define r3 where "r3 = rob_set_inst (rename_src2 (rat p) idx (rename_src1 (rat p) idx r0)) idx
                          (\<lambda>x. x\<lparr>dr_tag := idx\<rparr>)"
  have r: "rob (issue_insert cfg i p) = r3"
    unfolding r3_def using idx by (simp add: issue_insert_def ins Let_def)
  have "rob_skel r0 r3"
    unfolding r3_def
    by (rule rob_skel_trans [OF rob_skel_rename_src1
          rob_skel_trans [OF rob_skel_rename_src2 rob_skel_set_inst]]) simp
  then show "rob_skel (fst (rob_insert cfg (rob p) (inst_latch (ID_latch p i))))
           (rob (issue_insert cfg i p))"
    unfolding r r0_def .
  show "ID_latch (issue_insert cfg i p)
           = (ID_latch p)(i := (ID_latch p i)\<lparr>valid_latch := False\<rparr>)"
    using idx by (simp add: issue_insert_def ins Let_def)
  show "front_same p (issue_insert cfg i p)"
    using idx by (simp add: issue_insert_def ins Let_def front_same_def)
qed

lemma front_same_refl: "front_same p p"
  by (simp add: front_same_def)

lemma front_same_trans: "front_same a b \<Longrightarrow> front_same b c \<Longrightarrow> front_same a c"
  by (simp add: front_same_def)

lemma sorted_keys_cong:
  assumes "\<And>j. key (l' j) = key (l j)"
  shows "sorted_keys w l' = sorted_keys w l"
  unfolding sorted_keys_def using assms by simp

lemma issue_core_cong:
  assumes core: "issue_core cfg p q" and r: "rob q' = rob q" and fr: "front_same q q'"
    and lanes: "\<And>j. valid_latch (ID_latch q' j) = valid_latch (ID_latch q j) \<and>
                 key (ID_latch q' j) = key (ID_latch q j)"
  shows "issue_core cfg p q'"
proof -
  have lc: "latch_cover (PIPE_WIDTH cfg) (ID_latch q') a b
            = latch_cover (PIPE_WIDTH cfg) (ID_latch q) a b" for a b
    by (rule latch_cover_valid_cong) (simp add: lanes)
  have so: "sorted_keys (PIPE_WIDTH cfg) (ID_latch q') = sorted_keys (PIPE_WIDTH cfg) (ID_latch q)"
    by (rule sorted_keys_cong) (simp add: lanes)
  from core have "front_same p q" by (simp add: issue_core_def)
  from front_same_trans [OF this fr] have "front_same p q'" .
  with core show ?thesis
    unfolding issue_core_def r lc so by simp
qed

lemma issue_lane_insert:
  assumes "\<not> prev" "valid_latch (ID_latch q i)" "rob_check_space (rob q)"
    and "q1 = q\<lparr>ID_latch := (ID_latch q)(i := (ID_latch q i)\<lparr>stall := prev\<rparr>)\<rparr>"
    and "stall (ID_latch (issue_insert cfg i q1) i) = False"
  shows "issue_lane cfg i (prev, q) = (False, issue_insert cfg i q1)"
  using assms by (simp add: issue_lane_def Let_def)

lemma issue_lane_inv:
  assumes n: "0 < NUM_ROB_ENTRIES cfg" and i: "i < PIPE_WIDTH cfg"
    and inv: "issue_inv cfg p i (prev, q)"
  shows "issue_inv cfg p (Suc i) (issue_lane cfg i (prev, q))"
proof -
  define q1 where "q1 = q\<lparr>ID_latch := (ID_latch q)(i := (ID_latch q i)\<lparr>stall := prev\<rparr>)\<rparr>"
  from inv have core: "issue_core cfg p q"
    and pv: "\<not> prev \<Longrightarrow> \<forall>j<i. \<not> valid_latch (ID_latch q j)"
    by (simp_all add: issue_inv_def)
  have q1: "rob q1 = rob q" "front_same q q1" "stall (ID_latch q1 i) = prev"
    "\<And>j. valid_latch (ID_latch q1 j) = valid_latch (ID_latch q j) \<and>
          key (ID_latch q1 j) = key (ID_latch q j)"
    by (simp_all add: q1_def front_same_def)
  have core1: "issue_core cfg p q1"
    by (rule issue_core_cong [OF core q1(1,2,4)])
  show ?thesis
  proof (cases prev)
    case True
    then have "issue_lane cfg i (prev, q) = (True, q1)"
      by (simp add: issue_lane_def q1_def Let_def)
    then show ?thesis using core1 by (simp add: issue_inv_def)
  next
    case np: False
    show ?thesis
    proof (cases "valid_latch (ID_latch q i)")
      case False
      then have "issue_lane cfg i (prev, q) = (False, q1)"
        using np by (simp add: issue_lane_def q1_def Let_def)
      moreover have "\<forall>j<Suc i. \<not> valid_latch (ID_latch q1 j)"
        using pv [OF np] False q1(4) by (simp add: less_Suc_eq)
      ultimately show ?thesis using core1 by (simp add: issue_inv_def)
    next
      case v: True
      show ?thesis
      proof (cases "rob_check_space (rob q)")
        case False
        define q2 where "q2 = q1\<lparr>ID_latch := (ID_latch q1)(i := (ID_latch q1 i)\<lparr>stall := True\<rparr>)\<rparr>"
        have eq: "issue_lane cfg i (prev, q) = (True, q2)"
          using np v False by (simp add: issue_lane_def q1_def q2_def Let_def)
        have "issue_core cfg p q2"
          by (rule issue_core_cong [OF core1]) (simp_all add: q2_def front_same_def)
        then show ?thesis unfolding eq by (simp add: issue_inv_def)
      next
        case sp: True
        define q2 where "q2 = issue_insert cfg i q1"
        define r where "r = stat_retired_inst p"
        define nx where "nx = next_inst_num p"
        define w where "w = PIPE_WIDTH cfg"
        from core1 obtain c where f: "rob_fifo cfg (rob q1) c (Suc r)"
          and lc: "latch_cover w (ID_latch q1) (Suc (r + c)) nx"
          and so: "sorted_keys w (ID_latch q1)"
          and fr: "front_same p q1"
          unfolding issue_core_def r_def nx_def w_def by auto
        have ok: "rob_ptrs_ok cfg (rob q1)" using f by (simp add: rob_fifo_def)
        have sp1: "rob_check_space (rob q1)" using sp q1(1) by simp
        have v1: "valid_latch (ID_latch q1 i)" using v q1(4) by simp
        have iw: "i < w" using i by (simp add: w_def)
        have cn: "c < NUM_ROB_ENTRIES cfg"
          using rob_fifo_space [OF n f] sp1 by simp
        from lc iw v1 have lo: "Suc (r + c) \<le> key (ID_latch q1 i)"
          and hi: "key (ID_latch q1 i) < nx"
          unfolding latch_cover_def by blast+
        from lo hi have "Suc (r + c) \<le> Suc (r + c) \<and> Suc (r + c) < nx" by simp
        with lc obtain j where j: "j < w" "valid_latch (ID_latch q1 j)"
          "key (ID_latch q1 j) = Suc (r + c)"
          unfolding latch_cover_def by blast
        have "\<not> j < i" using pv [OF np] j(2) q1(4) by auto
        then have "i \<le> j" by simp
        with so j(1) have "key (ID_latch q1 i) \<le> key (ID_latch q1 j)"
          unfolding sorted_keys_def by blast
        with lo j(3) have num: "key (ID_latch q1 i) = Suc (r + c)" by simp
        have num': "inst_num (inst_latch (ID_latch q1 i)) = Suc r + c" using num by simp
        note fields = issue_insert_fields [OF ok sp1, of i]
        have r0: "fst (rob_insert cfg (rob q1) (inst_latch (ID_latch q1 i)))
                  = (rob q1)\<lparr>entries := (entries (rob q1))
                       (tail_ptr (rob q1) := \<lparr>valid = True, exec = False, ready = False,
                                              inst = inst_latch (ID_latch q1 i)\<rparr>),
                      tail_ptr := (tail_ptr (rob q1) + 1) mod int (NUM_ROB_ENTRIES cfg)\<rparr>"
          using sp1 by (simp add: rob_insert_def Let_def)
        have f0: "rob_fifo cfg (fst (rob_insert cfg (rob q1) (inst_latch (ID_latch q1 i))))
                    (Suc c) (Suc r)"
          unfolding r0 by (rule rob_fifo_push [OF n f cn num'])
        have f2: "rob_fifo cfg (rob q2) (Suc c) (Suc r)"
          unfolding q2_def by (rule rob_fifo_skel [OF fields(1) f0])
        have id2: "ID_latch q2 = (ID_latch q1)(i := (ID_latch q1 i)\<lparr>valid_latch := False\<rparr>)"
          unfolding q2_def by (rule fields(2))
        have lc2: "latch_cover w (ID_latch q2) (Suc (r + Suc c)) nx"
          unfolding id2 using latch_cover_remove_min [OF lc iw v1 num] by simp
        have so2: "sorted_keys w (ID_latch q2)"
          using so unfolding id2 sorted_keys_def by simp
        have fr2: "front_same p q2"
          unfolding q2_def by (rule front_same_trans [OF fr fields(3)])
        have le2: "Suc (r + Suc c) \<le> nx" using hi num by simp
        have core2: "issue_core cfg p q2"
          unfolding issue_core_def r_def [symmetric] nx_def [symmetric] w_def [symmetric]
          using f2 lc2 le2 so2 fr2 by blast
        have st2: "stall (ID_latch q2 i) = False"
          unfolding id2 using q1(3) np by simp
        have eq: "issue_lane cfg i (prev, q) = (False, q2)"
          unfolding q2_def
          by (rule issue_lane_insert [OF np v sp q1_def st2 [unfolded q2_def]])
        have "\<forall>j<Suc i. \<not> valid_latch (ID_latch q2 j)"
          unfolding id2 using pv [OF np] q1(4) by (simp add: less_Suc_eq)
        with core2 show ?thesis unfolding eq by (simp add: issue_inv_def)
      qed
    qed
  qed
qed

lemma issue_stage_inv:
  assumes cfg: "valid_config cfg" and inv: "pipe_inv cfg c p"
  shows "\<exists>c'. pipe_inv cfg c' (pipe_cycle_issue cfg p)"
proof -
  have n: "0 < NUM_ROB_ENTRIES cfg" and w: "1 \<le> PIPE_WIDTH cfg" "PIPE_WIDTH cfg \<le> MAX_PIPE_WIDTH"
    using cfg by (simp_all add: valid_config_def)
  define p0 where "p0 = p\<lparr>ID_latch := sort_ID cfg (ID_latch p)\<rparr>"
  from sort_ID_sorted [OF w, of "ID_latch p"]
  have pm: "perm_lanes (PIPE_WIDTH cfg) (ID_latch p) (ID_latch p0)"
    and so: "sorted_keys (PIPE_WIDTH cfg) (ID_latch p0)"
    by (simp_all add: p0_def)
  from inv have lc: "latch_cover (PIPE_WIDTH cfg) (ID_latch p) (Suc (stat_retired_inst p + c))
                       (next_inst_num p)"
    by (simp add: pipe_inv_def)
  have "issue_core cfg p p0"
    unfolding issue_core_def
  proof (intro conjI exI [of _ c])
    show "rob_fifo cfg (rob p0) c (Suc (stat_retired_inst p))"
      using inv by (simp add: pipe_inv_def p0_def)
    show "latch_cover (PIPE_WIDTH cfg) (ID_latch p0) (Suc (stat_retired_inst p + c))
            (next_inst_num p)"
      by (rule latch_cover_perm [OF pm lc])
    show "Suc (stat_retired_inst p + c) \<le> next_inst_num p"
      using inv by (simp add: pipe_inv_def)
    show "sorted_keys (PIPE_WIDTH cfg) (ID_latch p0)" by (rule so)
    show "front_same p p0" by (simp add: front_same_def p0_def)
  qed
  then have start: "issue_inv cfg p 0 (False, p0)"
    by (simp add: issue_inv_def)
  have step: "issue_inv cfg p (Suc i) (issue_lane cfg i s)"
    if "i < PIPE_WIDTH cfg" "issue_inv cfg p i s" for i s
    using issue_lane_inv [OF n that(1), of p "fst s" "snd s"] that(2) by simp
  have fin: "issue_inv cfg p (PIPE_WIDTH cfg)
          (fold (issue_lane cfg) [0..<PIPE_WIDTH cfg] (False, p0))"
    by (rule fold_upt_rule [where P = "issue_inv cfg p", OF start step])
  then have "issue_core cfg p (pipe_cycle_issue cfg p)"
    by (simp add: issue_inv_def pipe_cycle_issue_def p0_def)
  then obtain c' where
    "rob_fifo cfg (rob (pipe_cycle_issue cfg p)) c' (Suc (stat_retired_inst p))"
    "latch_cover (PIPE_WIDTH cfg) (ID_latch (pipe_cycle_issue cfg p))
       (Suc (stat_retired_inst p + c')) (next_inst_num p)"
    "Suc (stat_retired_inst p + c') \<le> next_inst_num p"
    "front_same p (pipe_cycle_issue cfg p)"
    unfolding issue_core_def by blast
  with inv have "pipe_inv cfg c' (pipe_cycle_issue cfg p)"
    by (simp add: pipe_inv_def front_same_def)
  then show ?thesis ..
qed


section \<open>Every cycle keeps the invariant\<close>

lemma pipe_inv_ptrs: "pipe_inv cfg c p \<Longrightarrow> rob_ptrs_ok cfg (rob p)"
  by (simp add: pipe_inv_def rob_fifo_def)

lemma pipe_inv_cycle:
  assumes cfg: "valid_config cfg" and inv: "pipe_inv cfg c p"
  shows "\<exists>p' c'. pipe_cycle cfg p = Some p' \<and> pipe_inv cfg c' p'"
proof -
  have n: "0 < NUM_ROB_ENTRIES cfg"
    using cfg by (simp add: valid_config_def)
  define p0 where "p0 = p\<lparr>stat_num_cycle := inc64 (stat_num_cycle p)\<rparr>"
  define p1 where "p1 = pipe_cycle_commit cfg p0"
  have "pipe_inv cfg c p0" using inv by (simp add: pipe_inv_def p0_def)
  from commit_inv [OF n this] obtain c1 where i1: "pipe_inv cfg c1 p1"
    unfolding p1_def by blast
  from writeback_backend [OF n pipe_inv_ptrs [OF i1]] obtain p2
    where w: "pipe_cycle_writeback cfg p1 = Some p2" and b2: "backend_rel p1 p2" by blast
  have i2: "pipe_inv cfg c1 p2" by (rule pipe_inv_backend [OF b2 i1])
  define p3 where "p3 = pipe_cycle_exe cfg p2"
  have i3: "pipe_inv cfg c1 p3"
    unfolding p3_def by (rule pipe_inv_backend [OF exe_backend i2])
  from schedule_backend [OF n pipe_inv_ptrs [OF i3]] obtain p4
    where s: "pipe_cycle_schedule cfg p3 = Some p4" and b4: "backend_rel p3 p4" by blast
  have i4: "pipe_inv cfg c1 p4" by (rule pipe_inv_backend [OF b4 i3])
  from issue_stage_inv [OF cfg i4] obtain c5 where i5: "pipe_inv cfg c5 (pipe_cycle_issue cfg p4)"
    by blast
  have i7: "pipe_inv cfg c5 (pipe_cycle_fetch cfg (pipe_cycle_decode cfg (pipe_cycle_issue cfg p4)))"
    by (rule fetch_inv [OF decode_inv [OF i5]])
  have "pipe_cycle cfg p
        = Some (pipe_cycle_fetch cfg (pipe_cycle_decode cfg (pipe_cycle_issue cfg p4)))"
    unfolding pipe_cycle_def Let_def p0_def [symmetric] p1_def [symmetric] w
    by (simp add: p3_def [symmetric] s)
  with i7 show ?thesis by blast
qed

lemma pipe_inv_cycles:
  assumes cfg: "valid_config cfg" and inv: "pipe_inv cfg c p"
  shows "\<exists>p' c'. cycles cfg n p = Some p' \<and> pipe_inv cfg c' p'"
proof (induction n)
  case 0
  show ?case using inv by auto
next
  case (Suc n)
  then obtain q d where q: "cycles cfg n p = Some q" "pipe_inv cfg d q" by blast
  from pipe_inv_cycle [OF cfg q(2)] q(1) show ?case by simp
qed

lemma pipe_inv_run_aux:
  assumes "run cfg p = Some q"
  shows "valid_config cfg \<and> (\<exists>c. pipe_inv cfg c p) \<longrightarrow> (\<exists>c'. pipe_inv cfg c' q)"
proof (rule run.raw_induct [where P = "\<lambda>cfg p q.
         valid_config cfg \<and> (\<exists>c. pipe_inv cfg c p) \<longrightarrow> (\<exists>c'. pipe_inv cfg c' q)", OF _ assms])
  fix run' cfg p q
  assume IH: "\<And>cfg p q. run' cfg p = Some q \<Longrightarrow>
                valid_config cfg \<and> (\<exists>c. pipe_inv cfg c p) \<longrightarrow> (\<exists>c'. pipe_inv cfg c' q)"
    and eq: "(if halt p then Some p
              else case pipe_cycle cfg p of None \<Rightarrow> None | Some q \<Rightarrow> run' cfg q) = Some q"
  show "valid_config cfg \<and> (\<exists>c. pipe_inv cfg c p) \<longrightarrow> (\<exists>c'. pipe_inv cfg c' q)"
  proof
    assume a: "valid_config cfg \<and> (\<exists>c. pipe_inv cfg c p)"
    then obtain c where cfg: "valid_config cfg" and inv: "pipe_inv cfg c p" by blast
    show "\<exists>c'. pipe_inv cfg c' q"
    proof (cases "halt p")
      case True
      with eq have "q = p" by simp
      with inv show ?thesis by blast
    next
      case False
      from pipe_inv_cycle [OF cfg inv] obtain p' c' where
        p': "pipe_cycle cfg p = Some p'" "pipe_inv cfg c' p'" by blast
      from eq False p'(1) have "run' cfg p' = Some q" by simp
      from IH [OF this] cfg p'(2) show ?thesis by blast
    qed
  qed
qed

lemma pipe_inv_run:
  "run cfg p = Some q \<Longrightarrow> valid_config cfg \<Longrightarrow> pipe_inv cfg c p \<Longrightarrow> \<exists>c'. pipe_inv cfg c' q"
  using pipe_inv_run_aux [of cfg p q] by blast



section \<open>Runs of the example traces\<close>

text \<open>
  Rules for evaluating a run. Only the first \<open>n\<close> EX lanes need to be visited by the
  writeback stage when no later lane is valid.
\<close>

lemma for_lanes_append:
  "for_lanes body (xs @ ys) p =
     (case for_lanes body xs p of None \<Rightarrow> None | Some q \<Rightarrow> for_lanes body ys q)"
  by (induction xs arbitrary: p) (auto split: option.splits)

lemma writeback_lanes_EX:
  "for_lanes (writeback_lane cfg) xs p = Some q \<Longrightarrow> i \<notin> set xs \<Longrightarrow> EX_latch q i = EX_latch p i"
proof (induction xs arbitrary: p)
  case Nil
  then show ?case by simp
next
  case (Cons x xs)
  from Cons.prems(1) obtain p1 where p1: "writeback_lane cfg x p = Some p1"
    "for_lanes (writeback_lane cfg) xs p1 = Some q"
    by (auto split: option.splits)
  from p1(1) Cons.prems(2) have "EX_latch p1 i = EX_latch p i"
    by (auto simp: writeback_lane_def split: if_splits bind_splits)
  with Cons.IH [OF p1(2)] Cons.prems(2) show ?case by simp
qed

lemma writeback_lanes_idle:
  "\<forall>i\<in>set xs. \<not> valid_latch (EX_latch p i) \<Longrightarrow> for_lanes (writeback_lane cfg) xs p = Some p"
  by (induction xs) (simp_all add: writeback_lane_def)

lemma writeback_first:
  assumes "\<forall>i. n \<le> i \<longrightarrow> \<not> valid_latch (EX_latch p i)" and "n \<le> MAX_WRITEBACKS"
  shows "pipe_cycle_writeback cfg p = for_lanes (writeback_lane cfg) [0..<n] p"
proof -
  obtain m where m: "MAX_WRITEBACKS = n + m"
    using assms(2) le_Suc_ex by blast
  have split: "[0..<n + m] = [0..<n] @ [n..<n + m]"
    using upt_add_eq_append [of 0 n m] by simp
  show ?thesis
  proof (cases "for_lanes (writeback_lane cfg) [0..<n] p")
    case None
    then show ?thesis
      by (simp add: pipe_cycle_writeback_def m split for_lanes_append)
  next
    case (Some q)
    have "\<forall>i\<in>set [n..<n + m]. \<not> valid_latch (EX_latch q i)"
      using writeback_lanes_EX [OF Some] assms(1) by simp
    from writeback_lanes_idle [OF this] Some show ?thesis
      by (simp add: pipe_cycle_writeback_def m split for_lanes_append)
  qed
qed

lemma cycles_numeral:
  "cycles cfg (numeral k) p =
     (case cycles cfg (pred_numeral k) p of None \<Rightarrow> None | Some q \<Rightarrow> pipe_cycle cfg q)"
  by (simp add: numeral_eq_Suc)

lemmas run_eval = cfg_raw_def I0_def I1_def I2_def mem_zero_def mem_hit_def
  pipe_init_def rob_init_def rat_init_def exeq_init_def
  zero_latch_def zero_inst_def pipe_cycle_def pipe_cycle_commit_def commit_lane_def commit_retire_def
  pipe_commit_inst_def rob_check_head_def rob_check_ready_def rob_remove_head_def rob_check_space_def
  rat_get_remap_def rat_reset_entry_def rat_set_remap_def writeback_lane_def
  rob_wakeup_def rob_wakeup_loop.simps wakeup_slot_def rob_mark_ready_def rob_mark_exec_def
  pipe_cycle_exe_def exe_copy_lane_def pipe_cycle_schedule_def sched_scan_in.simps sched_scan_ooo.simps
  srcs_ready_def sched_send_def sched_hold_def pipe_cycle_issue_def issue_lane_def sort_ID_def sort_pass_def
  sort_step_def usub32_def issue_insert_def rob_insert_def rename_src1_def rename_src2_def
  rob_set_inst_def pipe_cycle_decode_def decode_lane_def pipe_cycle_fetch_def fetch_lane_def
  pipe_fetch_inst_def fetch_fail_def inc64_def MAX_WRITEBACKS_def MAX_ARF_REGS_def Let_def
  writeback_first [where n = 1] cycles_numeral run.simps

lemma raw_cycle_5:
  "map_option (\<lambda>p. (valid_latch (EX_latch p 0), stall (EX_latch p 0),
                      inst_num (inst_latch (EX_latch p 0)), dr_tag (inst_latch (EX_latch p 0)),
                      ready (entries (rob p) 0),
                      inst_num (inst (entries (rob p) 1)), src1_tag (inst (entries (rob p) 1)),
                      src1_ready (inst (entries (rob p) 1)), exec (entries (rob p) 1),
                      valid_latch (SC_latch p 0)))
     (cycles cfg_raw 5 (pipe_init [I1, I2] mem))
   = Some (True, False, 1, 0, False, 2, 0, False, False, False)"
  by (simp add: run_eval)

lemma raw_cycle_6:
  "map_option (\<lambda>p. (valid_latch (EX_latch p 0), ready (entries (rob p) 0),
                      inst_num (inst (entries (rob p) 1)), src1_ready (inst (entries (rob p) 1)),
                      exec (entries (rob p) 1),
                      valid_latch (SC_latch p 0), inst_num (inst_latch (SC_latch p 0))))
     (cycles cfg_raw 6 (pipe_init [I1, I2] mem))
   = Some (False, True, 2, True, True, True, 2)"
  by (simp add: run_eval)

lemma raw_total:
  "map_option (\<lambda>p. (stat_retired_inst p, stat_num_cycle p, retired_log p))
     (run cfg_raw (pipe_init [I1, I2] mem)) = Some (2, 9, [1, 2])"
proof (cases "valid_rat (mem (- 1))")
  case False
  then show ?thesis by (simp add: run_eval)
next
  case True
  show ?thesis
  proof (cases "prf_id (mem (- 1)) = 1")
    case eq: True
    with True show ?thesis by (simp add: run_eval)
  next
    case ne: False
    with True show ?thesis by (simp add: run_eval)
  qed
qed

text \<open>
  C3, as stated, fails on the RAW trace. After five cycles the producer \<open>I1\<close> (tag 0)
  waits in EX lane 0 for writeback, and the consumer \<open>I2\<close> in ROB slot 1 has its source
  renamed to tag 0, not ready, and is not executing. In cycle 6 the producer is written
  back (its ROB entry becomes ready, the EX slot is emptied) and in the same cycle 6 the
  consumer is scheduled: its \<^verbatim>\<open>exec\<close> flag is set and it sits in SC lane 0.
\<close>

theorem raw_same_cycle_schedule:
  "map_option (\<lambda>p. (valid_latch (EX_latch p 0), stall (EX_latch p 0),
                      inst_num (inst_latch (EX_latch p 0)), dr_tag (inst_latch (EX_latch p 0)),
                      ready (entries (rob p) 0),
                      inst_num (inst (entries (rob p) 1)), src1_tag (inst (entries (rob p) 1)),
                      src1_ready (inst (entries (rob p) 1)), exec (entries (rob p) 1),
                      valid_latch (SC_latch p 0)))
     (cycles cfg_raw 5 (pipe_init [I1, I2] mem_zero))
   = Some (True, False, 1, 0, False, 2, 0, False, False, False) \<and>
   map_option (\<lambda>p. (valid_latch (EX_latch p 0), ready (entries (rob p) 0),
                      inst_num (inst (entries (rob p) 1)), src1_ready (inst (entries (rob p) 1)),
                      exec (entries (rob p) 1),
                      valid_latch (SC_latch p 0), inst_num (inst_latch (SC_latch p 0))))
     (cycles cfg_raw 6 (pipe_init [I1, I2] mem_zero))
   = Some (False, True, 2, True, True, True, 2)"
  using raw_cycle_5 [of mem_zero] raw_cycle_6 [of mem_zero] by simp

text \<open>
  C3, amended. The readiness established by writeback in cycle \<open>t\<close> is observable by
  the schedule stage of the same cycle \<open>t\<close>. In the cycle started in \<open>p\<close>, let \<open>p1\<close> be
  the pipeline after the commit stage, with ROB pointers in range and the valid entries
  between head and tail. Then writeback returns some \<open>p2\<close>, the schedule stage of this
  cycle runs on \<open>pipe_cycle_exe cfg p2\<close>, and in the ROB it reads there every valid entry
  whose source tag is the destination tag of a producer written back in this cycle has
  that source's ready flag set (while valid flags and source tags are those of \<open>p1\<close>).
\<close>

theorem schedule_sees_writeback:
  assumes "0 < NUM_ROB_ENTRIES cfg"
    and "p1 = pipe_cycle_commit cfg (p\<lparr>stat_num_cycle := inc64 (stat_num_cycle p)\<rparr>)"
    and "rob_ptrs_ok cfg (rob p1)"
    and "\<forall>k. valid (entries (rob p1) k) \<longrightarrow> k \<in> set (window_slots cfg (rob p1))"
  shows "\<exists>p2. pipe_cycle_writeback cfg p1 = Some p2 \<and>
           pipe_cycle cfg p =
             (case pipe_cycle_schedule cfg (pipe_cycle_exe cfg p2) of
                None \<Rightarrow> None
              | Some p4 \<Rightarrow> Some (pipe_cycle_fetch cfg (pipe_cycle_decode cfg (pipe_cycle_issue cfg p4)))) \<and>
           woken_le (rob p1) (rob (pipe_cycle_exe cfg p2)) \<and>
           (\<forall>i k. i < MAX_WRITEBACKS \<and> valid_latch (EX_latch p1 i) \<and> \<not> stall (EX_latch p1 i) \<and>
                  valid (entries (rob (pipe_cycle_exe cfg p2)) k) \<longrightarrow>
              (src1_tag (inst (entries (rob (pipe_cycle_exe cfg p2)) k))
                   = dr_tag (inst_latch (EX_latch p1 i))
                 \<longrightarrow> src1_ready (inst (entries (rob (pipe_cycle_exe cfg p2)) k))) \<and>
              (src2_tag (inst (entries (rob (pipe_cycle_exe cfg p2)) k))
                   = dr_tag (inst_latch (EX_latch p1 i))
                 \<longrightarrow> src2_ready (inst (entries (rob (pipe_cycle_exe cfg p2)) k))))"
proof -
  from writeback_wakes [OF assms(1,3,4)] obtain p2
    where p2: "pipe_cycle_writeback cfg p1 = Some p2" "wb_inv cfg p1 [0..<MAX_WRITEBACKS] p2"
    by blast
  have cyc: "pipe_cycle cfg p =
             (case pipe_cycle_schedule cfg (pipe_cycle_exe cfg p2) of
                None \<Rightarrow> None
              | Some p4 \<Rightarrow> Some (pipe_cycle_fetch cfg (pipe_cycle_decode cfg (pipe_cycle_issue cfg p4))))"
    using p2(1) assms(2) by (simp add: pipe_cycle_def split: option.splits)
  have le: "woken_le (rob p1) (rob (pipe_cycle_exe cfg p2))"
    using p2(2) by (simp add: rob_exe wb_inv_def)
  have f: "(src1_tag (inst (entries (rob (pipe_cycle_exe cfg p2)) k))
                   = dr_tag (inst_latch (EX_latch p1 i))
                 \<longrightarrow> src1_ready (inst (entries (rob (pipe_cycle_exe cfg p2)) k))) \<and>
              (src2_tag (inst (entries (rob (pipe_cycle_exe cfg p2)) k))
                   = dr_tag (inst_latch (EX_latch p1 i))
                 \<longrightarrow> src2_ready (inst (entries (rob (pipe_cycle_exe cfg p2)) k)))"
    if "i < MAX_WRITEBACKS" "valid_latch (EX_latch p1 i)" "\<not> stall (EX_latch p1 i)"
      "valid (entries (rob (pipe_cycle_exe cfg p2)) k)" for i k
  proof -
    have "i \<in> set [0..<MAX_WRITEBACKS]" using that(1) by simp
    with p2(2) that(2-4) show ?thesis
      unfolding wb_inv_def rob_exe by blast
  qed
  show ?thesis
    using p2(1) cyc le f by blast
qed

theorem schedule_sees_writeback_witness:
  "0 < NUM_ROB_ENTRIES cfg_raw \<and>
   pipe_cycle_commit cfg_raw (pipe_wb\<lparr>stat_num_cycle := inc64 (stat_num_cycle pipe_wb)\<rparr>)
     = pipe_wb\<lparr>stat_num_cycle := 1\<rparr> \<and>
   \<not> src1_ready (inst (entries (rob pipe_wb) 1)) \<and>
   (\<exists>p2. pipe_cycle_writeback cfg_raw (pipe_wb\<lparr>stat_num_cycle := 1\<rparr>) = Some p2 \<and>
         valid (entries (rob (pipe_cycle_exe cfg_raw p2)) 1) \<and>
         src1_ready (inst (entries (rob (pipe_cycle_exe cfg_raw p2)) 1)))"
proof -
  let ?p1 = "pipe_wb\<lparr>stat_num_cycle := 1\<rparr>"
  have n: "0 < NUM_ROB_ENTRIES cfg_raw"
    by (simp add: cfg_raw_def)
  have c: "pipe_cycle_commit cfg_raw (pipe_wb\<lparr>stat_num_cycle := inc64 (stat_num_cycle pipe_wb)\<rparr>) = ?p1"
    by (simp add: pipe_cycle_commit_def commit_lane_def rob_check_head_def rob_check_ready_def
        cfg_raw_def pipe_wb_def pipe_init_def inc64_def)
  have ok: "rob_ptrs_ok cfg_raw (rob ?p1)"
    by (simp add: rob_ptrs_ok_def pipe_wb_def cfg_raw_def)
  have w: "window_slots cfg_raw (rob ?p1) = [0, 1]"
    by (simp add: window_slots_def ring_slots_def ring_dist_def pipe_wb_def cfg_raw_def
        upt_rec)
  have win: "\<forall>k. valid (entries (rob ?p1) k) \<longrightarrow> k \<in> set (window_slots cfg_raw (rob ?p1))"
    unfolding w by (simp add: pipe_wb_def rob_init_def)
  have pre: "\<not> src1_ready (inst (entries (rob pipe_wb) 1))"
    "valid (entries (rob ?p1) 1)"
    "src1_tag (inst (entries (rob ?p1) 1)) = dr_tag (inst_latch (EX_latch ?p1 0))"
    "valid_latch (EX_latch ?p1 0)" "\<not> stall (EX_latch ?p1 0)"
    by (simp_all add: pipe_wb_def inst_r_def inst_w_def)
  from schedule_sees_writeback [OF n c [symmetric] ok win] obtain p2
    where p2: "pipe_cycle_writeback cfg_raw ?p1 = Some p2"
      "woken_le (rob ?p1) (rob (pipe_cycle_exe cfg_raw p2))"
      "\<forall>i k. i < MAX_WRITEBACKS \<and> valid_latch (EX_latch ?p1 i) \<and> \<not> stall (EX_latch ?p1 i) \<and>
                  valid (entries (rob (pipe_cycle_exe cfg_raw p2)) k) \<longrightarrow>
              (src1_tag (inst (entries (rob (pipe_cycle_exe cfg_raw p2)) k))
                   = dr_tag (inst_latch (EX_latch ?p1 i))
                 \<longrightarrow> src1_ready (inst (entries (rob (pipe_cycle_exe cfg_raw p2)) k))) \<and>
              (src2_tag (inst (entries (rob (pipe_cycle_exe cfg_raw p2)) k))
                   = dr_tag (inst_latch (EX_latch ?p1 i))
                 \<longrightarrow> src2_ready (inst (entries (rob (pipe_cycle_exe cfg_raw p2)) k)))"
    by blast
  have v: "valid (entries (rob (pipe_cycle_exe cfg_raw p2)) 1)"
    "src1_tag (inst (entries (rob (pipe_cycle_exe cfg_raw p2)) 1))
       = dr_tag (inst_latch (EX_latch ?p1 0))"
    using p2(2) pre(2,3) by (simp_all add: woken_le_def)
  have "(0::nat) < MAX_WRITEBACKS" by (simp add: MAX_WRITEBACKS_def)
  with p2(3) pre(4,5) v have "src1_ready (inst (entries (rob (pipe_cycle_exe cfg_raw p2)) 1))"
    by blast
  with n c pre(1) p2(1) v(1) show ?thesis by blast
qed

text \<open>
  C4, as stated, fails: the run of the RAW trace does not end with a cycle count of 8.
\<close>

theorem raw_run_not_8_cycles:
  "map_option stat_num_cycle (run cfg_raw (pipe_init [I1, I2] mem_zero)) \<noteq> Some 8"
proof
  assume "map_option stat_num_cycle (run cfg_raw (pipe_init [I1, I2] mem_zero)) = Some 8"
  with raw_total [of mem_zero] show False by (auto simp: map_option_case split: option.splits)
qed

text \<open>
  C4, amended. For the RAW trace with \<^verbatim>\<open>PIPE_WIDTH = 1\<close>, \<^verbatim>\<open>NUM_ROB_ENTRIES = 4\<close>,
  \<^verbatim>\<open>LOAD_EXE_CYCLES = 1\<close> and in-order scheduling, whatever the memory around the RAT
  array holds: the run ends, it retires exactly 2 instructions (1, then 2), and the total
  cycle count is 9. \<open>I1\<close> is written back in cycle 6 (it is in EX lane 0 and not ready
  after cycle 5, ready after cycle 6) and \<open>I2\<close> is scheduled in that same cycle 6 (not
  executing after cycle 5; executing and in SC lane 0 after cycle 6).
\<close>

theorem raw_run:
  "map_option (\<lambda>p. (stat_retired_inst p, stat_num_cycle p, retired_log p))
     (run cfg_raw (pipe_init [I1, I2] mem)) = Some (2, 9, [1, 2]) \<and>
   map_option (\<lambda>p. (valid_latch (EX_latch p 0), inst_num (inst_latch (EX_latch p 0)),
                      ready (entries (rob p) 0),
                      inst_num (inst (entries (rob p) 1)), exec (entries (rob p) 1)))
     (cycles cfg_raw 5 (pipe_init [I1, I2] mem)) = Some (True, 1, False, 2, False) \<and>
   map_option (\<lambda>p. (valid_latch (EX_latch p 0), ready (entries (rob p) 0),
                      inst_num (inst (entries (rob p) 1)), exec (entries (rob p) 1),
                      valid_latch (SC_latch p 0), inst_num (inst_latch (SC_latch p 0))))
     (cycles cfg_raw 6 (pipe_init [I1, I2] mem)) = Some (False, True, 2, True, True, 2)"
  using raw_total [of mem] raw_cycle_5 [of mem] raw_cycle_6 [of mem]
  by (auto simp: map_option_case split: option.splits)

theorem raw_run_witness:
  "map_option (\<lambda>p. (stat_retired_inst p, stat_num_cycle p, retired_log p))
     (run cfg_raw (pipe_init [I1, I2] mem_zero)) = Some (2, 9, [1, 2])"
  using raw_run [of mem_zero] by simp

text \<open>
  C2 is violated by the code. The trace is one instruction that needs no register. After
  six cycles it is at the head of the ROB, ready, with \<^verbatim>\<open>dest_reg = -1\<close>; in cycle 7 the
  commit stage retires it and passes that \<open>-1\<close> to \<^verbatim>\<open>rat_get_remap\<close>. With memory in
  front of the array that reads as a valid alias to tag 0 (the tag of the instruction),
  the commit stage goes on to call \<^verbatim>\<open>rat_reset_entry\<close> with \<open>-1\<close> as well: the entry at
  index \<open>-1\<close> is valid after cycle 6 and has been cleared after cycle 7.
\<close>

theorem commit_indexes_rat_with_sentinel:
  "map_option (\<lambda>p. (rob_check_head (rob p), dest_reg (inst (entries (rob p) (head_ptr (rob p)))),
                      rat p (- 1)))
     (cycles cfg_raw 6 (pipe_init [I0] mem_hit)) = Some (True, - 1, \<lparr>valid_rat = True, prf_id = 0\<rparr>) \<and>
   map_option (\<lambda>p. (retired_log p, rat p (- 1)))
     (cycles cfg_raw 7 (pipe_init [I0] mem_hit)) = Some ([1], \<lparr>valid_rat = False, prf_id = 0\<rparr>)"
  by (simp add: run_eval)


section \<open>Commit order\<close>

text \<open>
  C1. For every valid configuration and every trace (shorter than the range of the 64-bit
  instruction counter), after any number of cycles, and at the end of the run if the run
  ends, the instruction numbers of the retired instructions, in the order of their
  commits, are exactly \<open>1, 2, 3, ...\<close> up to the number of retired instructions. An
  iteration of the commit loop changes the ROB only by removing the entry at the head,
  and retires that entry's instruction, only when the head entry is valid and ready;
  otherwise it leaves the ROB and the retired instructions as they are.
\<close>

theorem commit_order:
  assumes cfg: "valid_config cfg" and tr: "length tr < 2 ^ 64 - 1"
  shows "(\<exists>p. cycles cfg n (pipe_init tr mem) = Some p \<and>
              retired_log p = [1..<Suc (stat_retired_inst p)]) \<and>
         (\<forall>q. run cfg (pipe_init tr mem) = Some q \<longrightarrow>
              retired_log q = [1..<Suc (stat_retired_inst q)]) \<and>
         (\<forall>i q. if valid (entries (rob q) (head_ptr (rob q))) \<and>
                    ready (entries (rob q) (head_ptr (rob q)))
                 then rob (commit_lane cfg i q)
                        = (rob q)\<lparr>entries := (entries (rob q))
                             (head_ptr (rob q) := (entries (rob q) (head_ptr (rob q)))
                                \<lparr>valid := False, exec := False, ready := False\<rparr>),
                           head_ptr := (head_ptr (rob q) + 1) mod int (NUM_ROB_ENTRIES cfg)\<rparr> \<and>
                      retired_log (commit_lane cfg i q)
                        = retired_log q @ [inst_num (inst (entries (rob q) (head_ptr (rob q))))]
                 else rob (commit_lane cfg i q) = rob q \<and>
                      retired_log (commit_lane cfg i q) = retired_log q)"
proof -
  have n: "0 < NUM_ROB_ENTRIES cfg"
    using cfg by (simp add: valid_config_def)
  have init: "pipe_inv cfg 0 (pipe_init tr mem)"
    by (rule pipe_inv_init [OF n tr])
  from pipe_inv_cycles [OF cfg init, of n] obtain p c where
    "cycles cfg n (pipe_init tr mem) = Some p" "pipe_inv cfg c p" by blast
  then have A: "\<exists>p. cycles cfg n (pipe_init tr mem) = Some p \<and>
              retired_log p = [1..<Suc (stat_retired_inst p)]"
    by (auto simp: pipe_inv_def)
  have B: "retired_log q = [1..<Suc (stat_retired_inst q)]"
    if "run cfg (pipe_init tr mem) = Some q" for q
  proof -
    from pipe_inv_run [OF that cfg init] obtain c' where "pipe_inv cfg c' q" by blast
    then show ?thesis by (simp add: pipe_inv_def)
  qed
  have C: "if valid (entries (rob q) (head_ptr (rob q))) \<and>
                    ready (entries (rob q) (head_ptr (rob q)))
                 then rob (commit_lane cfg i q)
                        = (rob q)\<lparr>entries := (entries (rob q))
                             (head_ptr (rob q) := (entries (rob q) (head_ptr (rob q)))
                                \<lparr>valid := False, exec := False, ready := False\<rparr>),
                           head_ptr := (head_ptr (rob q) + 1) mod int (NUM_ROB_ENTRIES cfg)\<rparr> \<and>
                      retired_log (commit_lane cfg i q)
                        = retired_log q @ [inst_num (inst (entries (rob q) (head_ptr (rob q))))]
                 else rob (commit_lane cfg i q) = rob q \<and>
                      retired_log (commit_lane cfg i q) = retired_log q" for i q
    by (simp add: commit_lane_def rob_check_head_def rob_check_ready_def rob_remove_head_def
        commit_retire_def pipe_commit_inst_def Let_def)
  from A B C show ?thesis by blast
qed

theorem commit_order_witness:
  "valid_config cfg_raw \<and> length [I1, I2] < 2 ^ 64 - 1 \<and>
   (\<exists>p. cycles cfg_raw 9 (pipe_init [I1, I2] mem_zero) = Some p \<and>
        retired_log p = [1..<Suc (stat_retired_inst p)]) \<and>
   (\<exists>q. run cfg_raw (pipe_init [I1, I2] mem_zero) = Some q \<and>
        stat_retired_inst q = 2 \<and> retired_log q = [1, 2]) \<and>
   head_ptr (rob (commit_lane cfg_raw 0 pipe_aliased)) = 1 \<and>
   \<not> valid (entries (rob (commit_lane cfg_raw 0 pipe_aliased)) 0) \<and>
   retired_log (commit_lane cfg_raw 0 pipe_aliased) = [1] \<and>
   rob (commit_lane cfg_raw 0 pipe_waiting) = rob pipe_waiting \<and>
   retired_log (commit_lane cfg_raw 0 pipe_waiting) = []"
proof -
  have c: "valid_config cfg_raw"
    by (simp add: valid_config_def cfg_raw_def MAX_PIPE_WIDTH_def MAX_ROB_ENTRIES_def)
  have l: "length [I1, I2] < 2 ^ 64 - 1"
    by simp
  note t = commit_order [OF c l, of 9 mem_zero]
  from raw_total [of mem_zero] obtain q where
    q: "run cfg_raw (pipe_init [I1, I2] mem_zero) = Some q" "stat_retired_inst q = 2"
    by auto
  from t q(1) have "retired_log q = [1..<Suc (stat_retired_inst q)]"
    by blast
  then have "retired_log q = [1, 2]"
    unfolding q(2) by (simp add: upt_conv_Cons)
  with q have B: "\<exists>q. run cfg_raw (pipe_init [I1, I2] mem_zero) = Some q \<and>
        stat_retired_inst q = 2 \<and> retired_log q = [1, 2]"
    by blast
  have ha: "valid (entries (rob pipe_aliased) (head_ptr (rob pipe_aliased))) \<and>
            ready (entries (rob pipe_aliased) (head_ptr (rob pipe_aliased)))"
    by (simp add: pipe_aliased_def rob_full1_def)
  have hw: "\<not> (valid (entries (rob pipe_waiting) (head_ptr (rob pipe_waiting))) \<and>
               ready (entries (rob pipe_waiting) (head_ptr (rob pipe_waiting))))"
    by (simp add: pipe_waiting_def rob_full1_def)
  from t have C: "\<And>i q. if valid (entries (rob q) (head_ptr (rob q))) \<and>
                    ready (entries (rob q) (head_ptr (rob q)))
                 then rob (commit_lane cfg_raw i q)
                        = (rob q)\<lparr>entries := (entries (rob q))
                             (head_ptr (rob q) := (entries (rob q) (head_ptr (rob q)))
                                \<lparr>valid := False, exec := False, ready := False\<rparr>),
                           head_ptr := (head_ptr (rob q) + 1) mod int (NUM_ROB_ENTRIES cfg_raw)\<rparr> \<and>
                      retired_log (commit_lane cfg_raw i q)
                        = retired_log q @ [inst_num (inst (entries (rob q) (head_ptr (rob q))))]
                 else rob (commit_lane cfg_raw i q) = rob q \<and>
                      retired_log (commit_lane cfg_raw i q) = retired_log q"
    by blast
  from C [of pipe_aliased 0] have
    "rob (commit_lane cfg_raw 0 pipe_aliased)
       = (rob pipe_aliased)\<lparr>entries := (entries (rob pipe_aliased))
            (head_ptr (rob pipe_aliased) := (entries (rob pipe_aliased) (head_ptr (rob pipe_aliased)))
               \<lparr>valid := False, exec := False, ready := False\<rparr>),
          head_ptr := (head_ptr (rob pipe_aliased) + 1) mod int (NUM_ROB_ENTRIES cfg_raw)\<rparr> \<and>
     retired_log (commit_lane cfg_raw 0 pipe_aliased)
       = retired_log pipe_aliased @ [inst_num (inst (entries (rob pipe_aliased) (head_ptr (rob pipe_aliased))))]"
    unfolding if_P [OF ha] .
  then have D: "head_ptr (rob (commit_lane cfg_raw 0 pipe_aliased)) = 1"
    "\<not> valid (entries (rob (commit_lane cfg_raw 0 pipe_aliased)) 0)"
    "retired_log (commit_lane cfg_raw 0 pipe_aliased) = [1]"
    by (simp_all add: pipe_aliased_def rob_full1_def inst_w_def cfg_raw_def pipe_init_def)
  from C [of pipe_waiting 0] have
    "rob (commit_lane cfg_raw 0 pipe_waiting) = rob pipe_waiting \<and>
     retired_log (commit_lane cfg_raw 0 pipe_waiting) = retired_log pipe_waiting"
    unfolding if_not_P [OF hw] .
  then have E: "rob (commit_lane cfg_raw 0 pipe_waiting) = rob pipe_waiting"
    "retired_log (commit_lane cfg_raw 0 pipe_waiting) = []"
    by (simp_all add: pipe_waiting_def pipe_init_def)
  from t have A: "\<exists>p. cycles cfg_raw 9 (pipe_init [I1, I2] mem_zero) = Some p \<and>
        retired_log p = [1..<Suc (stat_retired_inst p)]"
    by blast
  show ?thesis
    by (intro conjI c l A B D E)
qed

end
